theory Spec2Isabelle
  imports Complex_Main "HOL-Library.Sublist"
begin

section \<open>Configuration constants of simulation.py\<close>

text \<open>
  The duration ranges (minutes) of lines 27-30 and the two workshop rectangles of
  lines 23, 54, 57, 58. A pygame rectangle is the four integers left, top, width,
  height; its centre is \<open>(left + width div 2, top + height div 2)\<close>.
  Python floats are modelled as \<open>real\<close>: no claim below is about rounding.
\<close>

definition PROD_MIN :: int where "PROD_MIN = 65"
definition PROD_MAX :: int where "PROD_MAX = 85"
definition SETUP_MIN :: int where "SETUP_MIN = 5"
definition SETUP_MAX :: int where "SETUP_MAX = 15"
definition TRANSFER_MIN :: int where "TRANSFER_MIN = 5"
definition TRANSFER_MAX :: int where "TRANSFER_MAX = 11"
definition PROC_MIN :: int where "PROC_MIN = 30"
definition PROC_MAX :: int where "PROC_MAX = 45"

definition WIDTH :: int where "WIDTH = 1200"
definition HEIGHT :: int where "HEIGHT = 800"

datatype rect = Rect int int int int

fun rect_x :: "rect \<Rightarrow> int" where "rect_x (Rect l t w h) = l"
fun rect_y :: "rect \<Rightarrow> int" where "rect_y (Rect l t w h) = t"
fun rect_right :: "rect \<Rightarrow> int" where "rect_right (Rect l t w h) = l + w"
fun rect_center :: "rect \<Rightarrow> int \<times> int" where
  "rect_center (Rect l t w h) = (l + w div 2, t + h div 2)"

definition SECTION4_RECT :: rect where
  "SECTION4_RECT = Rect (WIDTH div 2) 120 (WIDTH div 2) (HEIGHT - 120)"
definition WS1_RECT :: rect where
  "WS1_RECT = Rect (rect_x SECTION4_RECT + 60) (rect_y SECTION4_RECT + 80) 140 100"
definition WS2_RECT :: rect where
  "WS2_RECT = Rect (rect_right SECTION4_RECT - 220) (rect_y SECTION4_RECT + 80) 160 110"

section \<open>Product model (class Product, lines 63-81)\<close>

text \<open>
  The state strings of the source become a datatype. Attributes that start as
  \<open>None\<close> are options; \<open>target_x\<close> and \<open>target_y\<close> do not exist until
  line 153 assigns them, which is \<open>None\<close> here (reading them then raises
  AttributeError). The coordinates \<open>x\<close>, \<open>y\<close> are named \<open>pos_x\<close>, \<open>pos_y\<close>.
\<close>

datatype pstate =
  waiting_ws1 | producing_ws1 | produced | transferring | in_queue_ws2 | processing_ws2 | finished

record product =
  pid :: int
  prod_time :: int
  setup_time :: int
  transfer_time :: int
  proc_time :: int
  t_prod_start :: "real option"
  t_prod_done :: "real option"
  t_transfer_done :: "real option"
  t_proc_start :: "real option"
  t_proc_done :: "real option"
  state :: pstate
  pos_x :: "real option"
  pos_y :: "real option"
  target_x :: "real option"
  target_y :: "real option"

definition Product_init :: "int \<Rightarrow> int \<Rightarrow> int \<Rightarrow> int \<Rightarrow> int \<Rightarrow> product" where
  "Product_init i d_prod d_setup d_transfer d_proc =
     \<lparr>pid = i, prod_time = d_prod, setup_time = d_setup, transfer_time = d_transfer,
      proc_time = d_proc, t_prod_start = None, t_prod_done = None, t_transfer_done = None,
      t_proc_start = None, t_proc_done = None, state = waiting_ws1,
      pos_x = None, pos_y = None, target_x = None, target_y = None\<rparr>"

section \<open>Simulation state (class Simulation, lines 87-182)\<close>

record simulation =
  now :: real
  speed :: real
  running :: bool
  paused :: bool
  products :: "product list"
  queue_ws2 :: "int list"
  finished_ids :: "int list"
  ws1_busy_until :: real
  ws2_busy_until :: real
  ws2_current_id :: "int option"
  next_pid :: int
  assigned_list :: "(int \<times> int \<times> int \<times> int) list"

datatype error = StopIteration | TypeError | AttributeError

text \<open>
  \<open>random.randint(lo, hi)\<close> returns an integer between \<open>lo\<close> and \<open>hi\<close>
  inclusive; which one depends on the generator's hidden state. That state is the
  integer parameter \<open>r\<close>: every value of the range arises from some \<open>r\<close>. One
  \<open>rng\<close> record holds the four values consumed by one call of
  \<open>_schedule_next_ws1\<close>.
\<close>

record rng =
  rng_prod :: int
  rng_setup :: int
  rng_transfer :: int
  rng_proc :: int

definition rand :: "int \<Rightarrow> int \<Rightarrow> int \<Rightarrow> int" where
  "rand lo hi r = lo + r mod (hi - lo + 1)"

definition schedule_next_ws1 :: "rng \<Rightarrow> simulation \<Rightarrow> simulation" where
  "schedule_next_ws1 g s =
     (let d_prod = rand PROD_MIN PROD_MAX (rng_prod g);
          d_setup = rand SETUP_MIN SETUP_MAX (rng_setup g);
          d_transfer = rand TRANSFER_MIN TRANSFER_MAX (rng_transfer g);
          d_proc = rand PROC_MIN PROC_MAX (rng_proc g);
          p = (Product_init (next_pid s) d_prod d_setup d_transfer d_proc)
                \<lparr>t_prod_start := Some (now s), state := producing_ws1,
                 pos_x := Some (of_int (fst (rect_center WS1_RECT))),
                 pos_y := Some (of_int (snd (rect_center WS1_RECT)))\<rparr>
      in s\<lparr>products := products s @ [p],
           ws1_busy_until := now s + of_int d_prod + of_int d_setup,
           assigned_list := assigned_list s @ [(pid p, d_prod, d_transfer, d_proc)],
           next_pid := next_pid s + 1\<rparr>)"

definition reset :: "rng \<Rightarrow> simulation" where
  "reset g = schedule_next_ws1 g
     \<lparr>now = 0, speed = 1, running = False, paused = True, products = [],
      queue_ws2 = [], finished_ids = [], ws1_busy_until = 0, ws2_busy_until = 0,
      ws2_current_id = None, next_pid = 1, assigned_list = []\<rparr>"

text \<open>\<open>Simulation()\<close>: the constructor only calls \<open>reset\<close> (lines 88-89).\<close>

definition Simulation_init :: "rng \<Rightarrow> simulation" where
  "Simulation_init g = reset g"

text \<open>
  \<open>next(pp for pp in self.products if pp.pid == i)\<close> yields the first product
  with that pid (\<open>find\<close>), or raises StopIteration. Assigning to its attributes
  changes that one object of the list: \<open>modify_first\<close>.
\<close>

fun modify_first :: "int \<Rightarrow> (product \<Rightarrow> product) \<Rightarrow> product list \<Rightarrow> product list" where
  "modify_first i f [] = []"
| "modify_first i f (p # ps) = (if pid p = i then f p # ps else p # modify_first i f ps)"

definition try_start_ws2 :: "simulation \<Rightarrow> error + simulation" where
  "try_start_ws2 s =
     (if ws2_current_id s = None \<and> queue_ws2 s \<noteq> [] then
        (case find (\<lambda>pp. pid pp = hd (queue_ws2 s)) (products s) of
           None \<Rightarrow> Inl StopIteration
         | Some p \<Rightarrow>
             Inr (s\<lparr>queue_ws2 := tl (queue_ws2 s),
                    products := modify_first (hd (queue_ws2 s))
                       (\<lambda>p. p\<lparr>t_proc_start := Some (now s), state := processing_ws2\<rparr>)
                       (products s),
                    ws2_current_id := Some (hd (queue_ws2 s)),
                    ws2_busy_until := now s + of_int (proc_time p)\<rparr>))
      else Inr s)"

text \<open>
  The body of the loop of lines 145-162 for one product \<open>p\<close> at simulated time
  \<open>t\<close>, in its two statements: the production check (lines 146-149) and the
  transfer (lines 151-162), which returns the pids it appends to the WS2 queue
  (line 162: none or the product's own). Adding
  \<open>None\<close> to a number raises TypeError, as does subtracting it. \<open>arrived\<close>
  is the test of line 160.
\<close>

definition arrived :: "real \<Rightarrow> real \<Rightarrow> real \<Rightarrow> real \<Rightarrow> bool" where
  "arrived x1 y1 tx ty \<longleftrightarrow> abs (x1 - tx) < 2 \<and> abs (y1 - ty) < 2"

definition produce_step :: "real \<Rightarrow> product \<Rightarrow> error + product" where
  "produce_step t p =
     (if state p = producing_ws1 then
        (case t_prod_start p of
           None \<Rightarrow> Inl TypeError
         | Some t0 \<Rightarrow>
             Inr (if t \<ge> t0 + of_int (prod_time p) \<and> t_prod_done p = None
                  then p\<lparr>t_prod_done := Some (t0 + of_int (prod_time p)),
                         state := produced\<rparr>
                  else p))
      else Inr p)"

definition transfer_step :: "product \<Rightarrow> error + (product \<times> int list)" where
  "transfer_step p =
     (if state p = produced \<and> t_transfer_done p = None then
        Inr (p\<lparr>state := transferring,
               target_x := Some (of_int (fst (rect_center WS2_RECT))),
               target_y := Some (of_int (snd (rect_center WS2_RECT)))\<rparr>, [])
      else if state p = transferring then
        (case target_x p of None \<Rightarrow> Inl AttributeError | Some tx \<Rightarrow>
        (case pos_x p of None \<Rightarrow> Inl TypeError | Some x0 \<Rightarrow>
        (case target_y p of None \<Rightarrow> Inl AttributeError | Some ty \<Rightarrow>
        (case pos_y p of None \<Rightarrow> Inl TypeError | Some y0 \<Rightarrow>
           (let dx = (tx - x0) * (5 / 100);
                dy = (ty - y0) * (5 / 100);
                p2 = p\<lparr>pos_x := Some (x0 + dx), pos_y := Some (y0 + dy)\<rparr>
            in if arrived (x0 + dx) (y0 + dy) tx ty
               then Inr (p2\<lparr>state := in_queue_ws2\<rparr>, [pid p2])
               else Inr (p2, []))))))
      else Inr (p, []))"

definition advance_product :: "real \<Rightarrow> product \<Rightarrow> error + (product \<times> int list)" where
  "advance_product t p =
     (case produce_step t p of Inl e \<Rightarrow> Inl e | Inr p1 \<Rightarrow> transfer_step p1)"

text \<open>The loop of lines 145-162 over the products, appending to the WS2 queue \<open>q\<close>.\<close>

fun advance_products :: "real \<Rightarrow> product list \<Rightarrow> int list \<Rightarrow> error + (product list \<times> int list)" where
  "advance_products t [] q = Inr ([], q)"
| "advance_products t (p # ps) q =
     (case advance_product t p of
        Inl e \<Rightarrow> Inl e
      | Inr (p', ids) \<Rightarrow>
          (case advance_products t ps (q @ ids) of
             Inl e \<Rightarrow> Inl e
           | Inr (ps', q') \<Rightarrow> Inr (p' # ps', q')))"

text \<open>\<open>Simulation.update\<close>, lines 138-182, as one function like the source.\<close>

definition update :: "rng \<Rightarrow> real \<Rightarrow> simulation \<Rightarrow> error + simulation" where
  "update g dt s =
     (if \<not> running s \<or> paused s then Inr s
      else
        (let s1 = s\<lparr>now := now s + dt * speed s\<rparr> in
         case advance_products (now s1) (products s1) (queue_ws2 s1) of
           Inl e \<Rightarrow> Inl e
         | Inr (ps, q) \<Rightarrow>
             (let s2 = s1\<lparr>products := ps, queue_ws2 := q\<rparr>;
                  s3 = (if now s2 \<ge> ws1_busy_until s2 \<and>
                           (products s2 = [] \<or>
                            state (last (products s2)) \<in>
                              {produced, in_queue_ws2, processing_ws2, finished})
                        then (let s' = schedule_next_ws1 g s2
                              in s'\<lparr>ws1_busy_until := ws1_busy_until s' + 1 / 1000000\<rparr>)
                        else s2)
              in case (case ws2_current_id s3 of
                         None \<Rightarrow> Inr s3
                       | Some i \<Rightarrow>
                           (case find (\<lambda>pp. pid pp = i) (products s3) of
                              None \<Rightarrow> Inl StopIteration
                            | Some p \<Rightarrow>
                                if now s3 \<ge> ws2_busy_until s3 then
                                  Inr (s3\<lparr>products := modify_first i
                                            (\<lambda>p. p\<lparr>t_proc_done := Some (ws2_busy_until s3),
                                                   state := finished\<rparr>) (products s3),
                                          finished_ids := finished_ids s3 @ [pid p],
                                          ws2_current_id := None\<rparr>)
                                else Inr s3)) of
                   Inl e \<Rightarrow> Inl e
                 | Inr s4 \<Rightarrow> try_start_ws2 s4)))"

section \<open>The sections of one tick\<close>

text \<open>
  The commented sections of \<open>update\<close>, each as a function of its own: the clock
  (line 142), production and transfer (lines 144-162), the WS1 scheduling check
  (lines 166-171), the WS2 completion check (lines 173-180). The last step is
  \<open>try_start_ws2\<close> (line 182).
\<close>

definition bind_err :: "error + 'a \<Rightarrow> ('a \<Rightarrow> error + 'b) \<Rightarrow> error + 'b" where
  "bind_err m f = (case m of Inl e \<Rightarrow> Inl e | Inr a \<Rightarrow> f a)"

definition tick_clock :: "real \<Rightarrow> simulation \<Rightarrow> simulation" where
  "tick_clock dt s = s\<lparr>now := now s + dt * speed s\<rparr>"

definition tick_advance :: "simulation \<Rightarrow> error + simulation" where
  "tick_advance s =
     (case advance_products (now s) (products s) (queue_ws2 s) of
        Inl e \<Rightarrow> Inl e
      | Inr (ps, q) \<Rightarrow> Inr (s\<lparr>products := ps, queue_ws2 := q\<rparr>))"

definition tick_schedule :: "rng \<Rightarrow> simulation \<Rightarrow> simulation" where
  "tick_schedule g s =
     (if now s \<ge> ws1_busy_until s \<and>
         (products s = [] \<or>
          state (last (products s)) \<in> {produced, in_queue_ws2, processing_ws2, finished})
      then (let s' = schedule_next_ws1 g s
            in s'\<lparr>ws1_busy_until := ws1_busy_until s' + 1 / 1000000\<rparr>)
      else s)"

definition tick_completion :: "simulation \<Rightarrow> error + simulation" where
  "tick_completion s =
     (case ws2_current_id s of
        None \<Rightarrow> Inr s
      | Some i \<Rightarrow>
          (case find (\<lambda>pp. pid pp = i) (products s) of
             None \<Rightarrow> Inl StopIteration
           | Some p \<Rightarrow>
               if now s \<ge> ws2_busy_until s then
                 Inr (s\<lparr>products := modify_first i
                           (\<lambda>p. p\<lparr>t_proc_done := Some (ws2_busy_until s),
                                  state := finished\<rparr>) (products s),
                        finished_ids := finished_ids s @ [pid p],
                        ws2_current_id := None\<rparr>)
               else Inr s))"

text \<open>
  The order of the source: clock, production and transfer, WS1 scheduling, WS2
  completion, WS2 start.
\<close>

definition tick_source_order :: "rng \<Rightarrow> real \<Rightarrow> simulation \<Rightarrow> error + simulation" where
  "tick_source_order g dt s =
     bind_err (tick_advance (tick_clock dt s))
       (\<lambda>s2. bind_err (tick_completion (tick_schedule g s2)) try_start_ws2)"


section \<open>The control surface (event handlers of main, lines 373-408)\<close>

text \<open>
  The driver assigns the attributes of the simulation directly. \<open>set_speed v\<close> is
  the assignment \<open>sim.speed = v\<close>; the driver only ever uses it with the literals
  1, 2, 5, 10 and 20 (\<open>driver_event\<close>).
\<close>

definition start :: "simulation \<Rightarrow> simulation" where
  "start s = s\<lparr>running := True, paused := False\<rparr>"

definition pause :: "simulation \<Rightarrow> simulation" where
  "pause s = s\<lparr>paused := True\<rparr>"

definition toggle :: "simulation \<Rightarrow> simulation" where
  "toggle s = s\<lparr>running := True, paused := \<not> paused s\<rparr>"

definition set_speed :: "real \<Rightarrow> simulation \<Rightarrow> simulation" where
  "set_speed v s = s\<lparr>speed := v\<rparr>"

datatype event = Tick rng real | Start | Pause | Toggle | Reset rng | SetSpeed real

fun apply_event :: "event \<Rightarrow> simulation \<Rightarrow> error + simulation" where
  "apply_event (Tick g dt) s = update g dt s"
| "apply_event Start s = Inr (start s)"
| "apply_event Pause s = Inr (pause s)"
| "apply_event Toggle s = Inr (toggle s)"
| "apply_event (Reset g) s = Inr (reset g)"
| "apply_event (SetSpeed v) s = Inr (set_speed v s)"

fun run :: "event list \<Rightarrow> simulation \<Rightarrow> error + simulation" where
  "run [] s = Inr s"
| "run (ev # evs) s = (case apply_event ev s of Inl e \<Rightarrow> Inl e | Inr s' \<Rightarrow> run evs s')"

fun driver_event :: "event \<Rightarrow> bool" where
  "driver_event (SetSpeed v) = (v = 1 \<or> v = 2 \<or> v = 5 \<or> v = 10 \<or> v = 20)"
| "driver_event ev = True"

fun passive_event :: "event \<Rightarrow> bool" where
  "passive_event (Tick g dt) = True"
| "passive_event Pause = True"
| "passive_event (SetSpeed v) = True"
| "passive_event ev = False"

fun is_reset :: "event \<Rightarrow> bool" where
  "is_reset (Reset g) = True"
| "is_reset ev = False"

section \<open>The history of the WS2 queue\<close>

text \<open>
  What one tick appends to the WS2 queue (line 162) and what it pops from it
  (line 131), computed from the sections above. A run records both histories; a
  reset discards the queue with the rest of the state and starts them afresh.
\<close>

definition popped :: "simulation \<Rightarrow> int list" where
  "popped s = (if ws2_current_id s = None \<and> queue_ws2 s \<noteq> [] then [hd (queue_ws2 s)] else [])"

definition tick_enqueued :: "real \<Rightarrow> simulation \<Rightarrow> int list" where
  "tick_enqueued dt s =
     (if \<not> running s \<or> paused s then []
      else case advance_products (now (tick_clock dt s)) (products s) [] of
             Inl e \<Rightarrow> []
           | Inr (ps, ids) \<Rightarrow> ids)"

definition tick_dequeued :: "rng \<Rightarrow> real \<Rightarrow> simulation \<Rightarrow> int list" where
  "tick_dequeued g dt s =
     (if \<not> running s \<or> paused s then []
      else case bind_err (tick_advance (tick_clock dt s))
                  (\<lambda>s2. tick_completion (tick_schedule g s2)) of
             Inl e \<Rightarrow> []
           | Inr s4 \<Rightarrow> popped s4)"

record history =
  sim :: simulation
  enqueued :: "int list"
  dequeued :: "int list"

fun apply_traced :: "event \<Rightarrow> history \<Rightarrow> error + history" where
  "apply_traced (Tick g dt) h =
     (case update g dt (sim h) of
        Inl e \<Rightarrow> Inl e
      | Inr s' \<Rightarrow> Inr \<lparr>sim = s', enqueued = enqueued h @ tick_enqueued dt (sim h),
                      dequeued = dequeued h @ tick_dequeued g dt (sim h)\<rparr>)"
| "apply_traced (Reset g) h = Inr \<lparr>sim = reset g, enqueued = [], dequeued = []\<rparr>"
| "apply_traced ev h =
     (case apply_event ev (sim h) of
        Inl e \<Rightarrow> Inl e
      | Inr s' \<Rightarrow> Inr (h\<lparr>sim := s'\<rparr>))"

fun run_traced :: "event list \<Rightarrow> history \<Rightarrow> error + history" where
  "run_traced [] h = Inr h"
| "run_traced (ev # evs) h =
     (case apply_traced ev h of Inl e \<Rightarrow> Inl e | Inr h' \<Rightarrow> run_traced evs h')"

section \<open>Invariants of the reachable states\<close>

text \<open>
  \<open>adv t p\<close> and \<open>arr t p\<close> are what the loop body makes of a product and the
  pids it appends, read off \<open>advance_product\<close>. A product is well formed when
  the attributes the loop body reads are set.
\<close>

definition adv :: "real \<Rightarrow> product \<Rightarrow> product" where
  "adv t p = (case advance_product t p of Inl e \<Rightarrow> p | Inr (p', ids) \<Rightarrow> p')"

definition arr :: "real \<Rightarrow> product \<Rightarrow> int list" where
  "arr t p = (case advance_product t p of Inl e \<Rightarrow> [] | Inr (p', ids) \<Rightarrow> ids)"

definition wf_product :: "product \<Rightarrow> bool" where
  "wf_product p \<longleftrightarrow>
     (state p = producing_ws1 \<longrightarrow> t_prod_start p \<noteq> None) \<and>
     pos_x p \<noteq> None \<and> pos_y p \<noteq> None \<and>
     (state p = transferring \<longrightarrow> target_x p \<noteq> None \<and> target_y p \<noteq> None)"

text \<open>
  Pids are distinct and below the counter; every product is well formed; only the
  most recent product can be in production; the queue holds distinct pids of
  products in state \<open>in_queue_ws2\<close>; the products in state \<open>processing_ws2\<close>
  are those with the current WS2 pid; the finished list holds distinct pids of
  products in state \<open>finished\<close>.
\<close>

definition inv_ids :: "simulation \<Rightarrow> bool" where
  "inv_ids s \<longleftrightarrow>
     distinct (map pid (products s)) \<and> (\<forall>p\<in>set (products s). pid p < next_pid s)"

definition inv_wf :: "simulation \<Rightarrow> bool" where
  "inv_wf s \<longleftrightarrow> (\<forall>p\<in>set (products s). wf_product p)"

definition inv_ws1 :: "simulation \<Rightarrow> bool" where
  "inv_ws1 s \<longleftrightarrow> (\<forall>p\<in>set (butlast (products s)). state p \<noteq> producing_ws1)"

definition inv_queue :: "simulation \<Rightarrow> bool" where
  "inv_queue s \<longleftrightarrow>
     distinct (queue_ws2 s) \<and>
     (\<forall>i\<in>set (queue_ws2 s). \<exists>p\<in>set (products s). pid p = i \<and> state p = in_queue_ws2)"

definition inv_ws2 :: "simulation \<Rightarrow> bool" where
  "inv_ws2 s \<longleftrightarrow>
     (case ws2_current_id s of
        None \<Rightarrow> (\<forall>p\<in>set (products s). state p \<noteq> processing_ws2)
      | Some i \<Rightarrow>
          (\<exists>p\<in>set (products s). pid p = i) \<and>
          (\<forall>p\<in>set (products s). state p = processing_ws2 \<longleftrightarrow> pid p = i))"

definition inv_finished :: "simulation \<Rightarrow> bool" where
  "inv_finished s \<longleftrightarrow>
     distinct (finished_ids s) \<and>
     (\<forall>i\<in>set (finished_ids s). \<exists>p\<in>set (products s). pid p = i \<and> state p = finished)"

definition invariant :: "simulation \<Rightarrow> bool" where
  "invariant s \<longleftrightarrow>
     inv_ids s \<and> inv_wf s \<and> inv_ws1 s \<and> inv_queue s \<and> inv_ws2 s \<and> inv_finished s"

section \<open>Observations used by the theorems\<close>

definition count_state :: "pstate \<Rightarrow> simulation \<Rightarrow> nat" where
  "count_state st s = length (filter (\<lambda>p. state p = st) (products s))"

fun is_tick :: "event \<Rightarrow> bool" where
  "is_tick (Tick g dt) = True"
| "is_tick ev = False"

section \<open>A concrete run\<close>

text \<open>
  A generator that always yields the smallest durations (65, 5, 5, 30), and a run
  that takes the first product through its whole life: start; one tick of 10000
  minutes (production ends, the transfer begins); one hundred ticks of no time, each
  moving the product a twentieth of the remaining way to WS2, the last of which
  arrives (WS1 schedules the second product, WS2 starts the first); one tick of 100
  minutes (WS2 completes the first product). \<open>demo_x n\<close> and \<open>demo_y n\<close> are
  the coordinates after \<open>n\<close> moves; the three states are written out with the
  coordinates of the first product as parameters.
\<close>

definition demo_rng :: rng where
  "demo_rng = \<lparr>rng_prod = 0, rng_setup = 0, rng_transfer = 0, rng_proc = 0\<rparr>"

primrec demo_x :: "nat \<Rightarrow> real" where
  "demo_x 0 = 730"
| "demo_x (Suc n) = demo_x n + (1060 - demo_x n) * (5 / 100)"

primrec demo_y :: "nat \<Rightarrow> real" where
  "demo_y 0 = 250"
| "demo_y (Suc n) = demo_y n + (255 - demo_y n) * (5 / 100)"

definition demo_transferring :: "real \<Rightarrow> real \<Rightarrow> simulation" where
  "demo_transferring x1 y1 =
     \<lparr>now = 10000, speed = 1, running = True, paused = False,
      products =
        [\<lparr>pid = 1, prod_time = 65, setup_time = 5, transfer_time = 5, proc_time = 30,
          t_prod_start = Some 0, t_prod_done = Some 65, t_transfer_done = None,
          t_proc_start = None, t_proc_done = None, state = transferring,
          pos_x = Some x1, pos_y = Some y1, target_x = Some 1060, target_y = Some 255\<rparr>],
      queue_ws2 = [], finished_ids = [], ws1_busy_until = 70, ws2_busy_until = 0,
      ws2_current_id = None, next_pid = 2, assigned_list = [(1, 65, 5, 30)]\<rparr>"

definition demo_processing :: "real \<Rightarrow> real \<Rightarrow> simulation" where
  "demo_processing x1 y1 =
     \<lparr>now = 10000, speed = 1, running = True, paused = False,
      products =
        [\<lparr>pid = 1, prod_time = 65, setup_time = 5, transfer_time = 5, proc_time = 30,
          t_prod_start = Some 0, t_prod_done = Some 65, t_transfer_done = None,
          t_proc_start = Some 10000, t_proc_done = None, state = processing_ws2,
          pos_x = Some x1, pos_y = Some y1, target_x = Some 1060, target_y = Some 255\<rparr>,
         \<lparr>pid = 2, prod_time = 65, setup_time = 5, transfer_time = 5, proc_time = 30,
          t_prod_start = Some 10000, t_prod_done = None, t_transfer_done = None,
          t_proc_start = None, t_proc_done = None, state = producing_ws1,
          pos_x = Some 730, pos_y = Some 250, target_x = None, target_y = None\<rparr>],
      queue_ws2 = [], finished_ids = [], ws1_busy_until = 10070 + 1 / 1000000,
      ws2_busy_until = 10030, ws2_current_id = Some 1, next_pid = 3,
      assigned_list = [(1, 65, 5, 30), (2, 65, 5, 30)]\<rparr>"

definition demo_finished :: "real \<Rightarrow> real \<Rightarrow> simulation" where
  "demo_finished x1 y1 =
     \<lparr>now = 10100, speed = 1, running = True, paused = False,
      products =
        [\<lparr>pid = 1, prod_time = 65, setup_time = 5, transfer_time = 5, proc_time = 30,
          t_prod_start = Some 0, t_prod_done = Some 65, t_transfer_done = None,
          t_proc_start = Some 10000, t_proc_done = Some 10030, state = finished,
          pos_x = Some x1, pos_y = Some y1, target_x = Some 1060, target_y = Some 255\<rparr>,
         \<lparr>pid = 2, prod_time = 65, setup_time = 5, transfer_time = 5, proc_time = 30,
          t_prod_start = Some 10000, t_prod_done = Some 10065, t_transfer_done = None,
          t_proc_start = None, t_proc_done = None, state = transferring,
          pos_x = Some 730, pos_y = Some 250, target_x = Some 1060, target_y = Some 255\<rparr>],
      queue_ws2 = [], finished_ids = [1], ws1_busy_until = 10070 + 1 / 1000000,
      ws2_busy_until = 10030, ws2_current_id = None, next_pid = 3,
      assigned_list = [(1, 65, 5, 30), (2, 65, 5, 30)]\<rparr>"

definition demo_started :: simulation where
  "demo_started = demo_processing (demo_x 100) (demo_y 100)"

definition demo_final :: simulation where
  "demo_final = demo_finished (demo_x 100) (demo_y 100)"

definition demo_prefix :: "event list" where
  "demo_prefix =
     [Start, Tick demo_rng 10000] @ replicate 99 (Tick demo_rng 0) @ [Tick demo_rng 0]"

definition demo_events :: "event list" where
  "demo_events = demo_prefix @ [Tick demo_rng 100]"

section \<open>Facts about the loop body and the lookups\<close>

lemmas config_defs =
  PROD_MIN_def PROD_MAX_def SETUP_MIN_def SETUP_MAX_def TRANSFER_MIN_def TRANSFER_MAX_def
  PROC_MIN_def PROC_MAX_def WIDTH_def HEIGHT_def SECTION4_RECT_def WS1_RECT_def WS2_RECT_def

lemmas step_defs = advance_product_def produce_step_def transfer_step_def Let_def

lemma advance_products_queue:
  "advance_products t ps q =
     (case advance_products t ps [] of Inl e \<Rightarrow> Inl e | Inr (ps', ids) \<Rightarrow> Inr (ps', q @ ids))"
proof (induction ps arbitrary: q)
  case Nil
  show ?case by simp
next
  case (Cons p ps)
  show ?case
  proof (cases "advance_product t p")
    case (Inl e)
    then show ?thesis by simp
  next
    case (Inr r)
    obtain p' ids where r: "r = (p', ids)" by (cases r)
    show ?thesis
      using Inr r Cons.IH [of "q @ ids"] Cons.IH [of ids]
      by (simp split: sum.splits)
  qed
qed

lemma adv_pid [simp]: "pid (adv t p) = pid p"
  by (simp add: adv_def step_defs split: option.split)

lemma adv_proc_time [simp]: "proc_time (adv t p) = proc_time p"
  by (simp add: adv_def step_defs split: option.split)

lemma adv_processing [simp]: "state (adv t p) = processing_ws2 \<longleftrightarrow> state p = processing_ws2"
  by (simp add: adv_def step_defs split: option.split)

lemma adv_finished [simp]: "state (adv t p) = finished \<longleftrightarrow> state p = finished"
  by (simp add: adv_def step_defs split: option.split)

lemma adv_producing: "state (adv t p) = producing_ws1 \<Longrightarrow> state p = producing_ws1"
  by (simp add: adv_def step_defs split: option.splits if_splits)

lemma adv_in_queue: "state p = in_queue_ws2 \<Longrightarrow> adv t p = p \<and> arr t p = []"
  by (simp add: adv_def arr_def step_defs)

lemma arr_cases:
  "arr t p = [] \<or> (arr t p = [pid p] \<and> state p = transferring \<and> state (adv t p) = in_queue_ws2)"
  by (simp add: adv_def arr_def step_defs split: option.split)

lemma advance_product_wf:
  "wf_product p \<Longrightarrow> advance_product t p = Inr (adv t p, arr t p) \<and> wf_product (adv t p)"
  by (auto simp add: wf_product_def adv_def arr_def step_defs split: option.split)

lemma advance_products_Inr:
  "advance_products t ps q = Inr (ps', q') \<Longrightarrow>
     ps' = map (adv t) ps \<and> q' = q @ concat (map (arr t) ps)"
proof (induction ps arbitrary: q ps' q')
  case Nil
  then show ?case by simp
next
  case (Cons p ps)
  from Cons.prems obtain p1 ids ps1 where
    a: "advance_product t p = Inr (p1, ids)" and
    b: "advance_products t ps (q @ ids) = Inr (ps1, q')" and c: "ps' = p1 # ps1"
    by (auto split: sum.splits prod.splits)
  from a have d: "p1 = adv t p \<and> ids = arr t p"
    by (simp add: adv_def arr_def)
  from Cons.IH [OF b] c d show ?case by simp
qed

lemma advance_products_wf:
  "\<forall>p\<in>set ps. wf_product p \<Longrightarrow>
     advance_products t ps q = Inr (map (adv t) ps, q @ concat (map (arr t) ps))"
proof (induction ps arbitrary: q)
  case Nil
  show ?case by simp
next
  case (Cons p ps)
  then have "advance_product t p = Inr (adv t p, arr t p)"
    by (simp add: advance_product_wf)
  with Cons show ?case by simp
qed

lemma arrivals_set:
  "i \<in> set (concat (map (arr t) ps)) \<Longrightarrow>
     \<exists>p\<in>set ps. pid p = i \<and> state p = transferring \<and> state (adv t p) = in_queue_ws2"
proof -
  assume "i \<in> set (concat (map (arr t) ps))"
  then obtain p where p: "p \<in> set ps" "i \<in> set (arr t p)" by auto
  with arr_cases [of t p] show ?thesis by auto
qed

lemma arrivals_distinct:
  "distinct (map pid ps) \<Longrightarrow> distinct (concat (map (arr t) ps))"
proof (induction ps)
  case Nil
  show ?case by simp
next
  case (Cons p ps)
  have "set (arr t p) \<inter> set (concat (map (arr t) ps)) = {}"
  proof (rule ccontr)
    assume "set (arr t p) \<inter> set (concat (map (arr t) ps)) \<noteq> {}"
    then obtain i where i: "i \<in> set (arr t p)" "i \<in> set (concat (map (arr t) ps))" by auto
    from i(1) arr_cases [of t p] have "i = pid p" by auto
    moreover from arrivals_set [OF i(2)] have "i \<in> pid ` set ps" by auto
    ultimately show False using Cons.prems by auto
  qed
  moreover have "distinct (arr t p)" using arr_cases [of t p] by auto
  ultimately show ?case using Cons by simp
qed

lemma pid_inj:
  "distinct (map pid ps) \<Longrightarrow> p \<in> set ps \<Longrightarrow> p' \<in> set ps \<Longrightarrow> pid p = pid p' \<Longrightarrow> p = p'"
  by (meson distinct_map inj_onD)

lemma modify_first_map:
  "distinct (map pid ps) \<Longrightarrow>
     modify_first i f ps = map (\<lambda>p. if pid p = i then f p else p) ps"
proof (induction ps)
  case Nil
  show ?case by simp
next
  case (Cons p ps)
  show ?case
  proof (cases "pid p = i")
    case True
    from Cons.prems have "pid p \<notin> pid ` set ps" by simp
    with True have "\<forall>p'\<in>set ps. pid p' \<noteq> i" by blast
    then have "map (\<lambda>p. if pid p = i then f p else p) ps = ps" by (simp add: map_idI)
    with True show ?thesis by simp
  next
    case False
    with Cons show ?thesis by simp
  qed
qed

lemma find_pid:
  "p \<in> set ps \<Longrightarrow> distinct (map pid ps) \<Longrightarrow> find (\<lambda>pp. pid pp = pid p) ps = Some p"
proof (induction ps)
  case Nil
  then show ?case by simp
next
  case (Cons a ps)
  then show ?case by (auto simp add: image_iff)
qed

lemma update_phases:
  "update g dt s = (if \<not> running s \<or> paused s then Inr s else tick_source_order g dt s)"
proof (cases "\<not> running s \<or> paused s")
  case True
  then show ?thesis by (simp add: update_def)
next
  case False
  show ?thesis
  proof (cases "advance_products (now s + dt * speed s) (products s) (queue_ws2 s)")
    case (Inl e)
    with False show ?thesis
      by (simp add: update_def tick_source_order_def bind_err_def tick_advance_def tick_clock_def)
  next
    case (Inr r)
    obtain ps q where r: "r = (ps, q)" by (cases r)
    from False Inr r show ?thesis
      by (simp add: update_def tick_source_order_def bind_err_def tick_advance_def tick_clock_def
          tick_schedule_def tick_completion_def Let_def)
  qed
qed

lemma tick_advance_invariant:
  assumes "invariant s"
  shows "\<exists>s'. tick_advance s = Inr s' \<and> invariant s' \<and>
           queue_ws2 s' = queue_ws2 s @ concat (map (arr (now s)) (products s))"
proof -
  let ?t = "now s"
  let ?s' = "s\<lparr>products := map (adv ?t) (products s),
               queue_ws2 := queue_ws2 s @ concat (map (arr ?t) (products s))\<rparr>"
  from assms have wf: "\<forall>p\<in>set (products s). wf_product p"
    by (simp add: invariant_def inv_wf_def)
  have run: "tick_advance s = Inr ?s'"
    by (simp add: tick_advance_def advance_products_wf [OF wf])
  from assms have ids: "distinct (map pid (products s))"
    by (simp add: invariant_def inv_ids_def)
  have 1: "inv_ids ?s'"
    using assms by (simp add: invariant_def inv_ids_def o_def)
  have 2: "inv_wf ?s'"
    using wf by (simp add: inv_wf_def advance_product_wf)
  have 3: "inv_ws1 ?s'"
    using assms by (auto simp add: invariant_def inv_ws1_def map_butlast [symmetric] dest: adv_producing)
  have 4: "inv_queue ?s'"
  proof -
    from assms have q: "distinct (queue_ws2 s)"
      "\<forall>i\<in>set (queue_ws2 s). \<exists>p\<in>set (products s). pid p = i \<and> state p = in_queue_ws2"
      by (simp_all add: invariant_def inv_queue_def)
    have disj: "set (queue_ws2 s) \<inter> set (concat (map (arr ?t) (products s))) = {}"
    proof (rule ccontr)
      assume "\<not> ?thesis"
      then obtain i where i: "i \<in> set (queue_ws2 s)" "i \<in> set (concat (map (arr ?t) (products s)))"
        by blast
      from q(2) i(1) obtain p where p: "p \<in> set (products s)" "pid p = i" "state p = in_queue_ws2"
        by blast
      from arrivals_set [OF i(2)] obtain p' where
        p': "p' \<in> set (products s)" "pid p' = i" "state p' = transferring" by blast
      from pid_inj [OF ids p(1) p'(1)] p p' show False by simp
    qed
    have mem: "\<exists>p\<in>set (products s). pid (adv ?t p) = i \<and> state (adv ?t p) = in_queue_ws2"
      if "i \<in> set (queue_ws2 s) \<or> i \<in> set (concat (map (arr ?t) (products s)))" for i
      using that
    proof
      assume "i \<in> set (queue_ws2 s)"
      with q(2) obtain p where p: "p \<in> set (products s)" "pid p = i" "state p = in_queue_ws2"
        by blast
      with adv_in_queue [of p ?t] show ?thesis by auto
    next
      assume "i \<in> set (concat (map (arr ?t) (products s)))"
      from arrivals_set [OF this] show ?thesis by auto
    qed
    show ?thesis
      using q(1) disj arrivals_distinct [OF ids, of ?t] mem
      by (simp add: inv_queue_def)
  qed
  have 5: "inv_ws2 ?s'"
    using assms by (auto simp add: invariant_def inv_ws2_def split: option.splits)
  have 6: "inv_finished ?s'"
    using assms by (auto simp add: invariant_def inv_finished_def)
  from run 1 2 3 4 5 6 show ?thesis by (simp add: invariant_def)
qed

lemma schedule_next_ws1_fields [simp]:
  "now (schedule_next_ws1 g s) = now s"
  "speed (schedule_next_ws1 g s) = speed s"
  "running (schedule_next_ws1 g s) = running s"
  "paused (schedule_next_ws1 g s) = paused s"
  "queue_ws2 (schedule_next_ws1 g s) = queue_ws2 s"
  "finished_ids (schedule_next_ws1 g s) = finished_ids s"
  "ws2_busy_until (schedule_next_ws1 g s) = ws2_busy_until s"
  "ws2_current_id (schedule_next_ws1 g s) = ws2_current_id s"
  "next_pid (schedule_next_ws1 g s) = next_pid s + 1"
  by (simp_all add: schedule_next_ws1_def Let_def)

lemma schedule_next_ws1_products:
  "\<exists>p. products (schedule_next_ws1 g s) = products s @ [p] \<and> pid p = next_pid s \<and>
       state p = producing_ws1 \<and> wf_product p"
  by (simp add: schedule_next_ws1_def Let_def Product_init_def wf_product_def)

lemma schedule_next_ws1_invariant:
  assumes "invariant s"
    and last: "products s = [] \<or> state (last (products s)) \<noteq> producing_ws1"
  shows "invariant (schedule_next_ws1 g s)"
proof -
  let ?s' = "schedule_next_ws1 g s"
  obtain p where p: "products ?s' = products s @ [p]" "pid p = next_pid s"
    "state p = producing_ws1" "wf_product p"
    using schedule_next_ws1_products [of g s] by blast
  have 1: "inv_ids ?s'"
    using assms(1) p by (auto simp add: invariant_def inv_ids_def)
  have 2: "inv_wf ?s'"
    using assms(1) p by (auto simp add: invariant_def inv_wf_def)
  have 3: "inv_ws1 ?s'"
  proof -
    have "state q \<noteq> producing_ws1" if "q \<in> set (products s)" for q
    proof (cases "q = last (products s)")
      case True
      with that last show ?thesis by auto
    next
      case False
      with that have "q \<in> set (butlast (products s))"
        by (metis append_butlast_last_id empty_iff empty_set insert_iff list.simps(15)
            rotate1.simps(2) set_rotate1)
      with assms(1) show ?thesis by (simp add: invariant_def inv_ws1_def)
    qed
    with p show ?thesis by (simp add: inv_ws1_def)
  qed
  have 4: "inv_queue ?s'"
    using assms(1) p by (auto simp add: invariant_def inv_queue_def)
  have 5: "inv_ws2 ?s'"
    using assms(1) p by (auto simp add: invariant_def inv_ws2_def inv_ids_def split: option.splits)
  have 6: "inv_finished ?s'"
    using assms(1) p by (auto simp add: invariant_def inv_finished_def)
  from 1 2 3 4 5 6 show ?thesis by (simp add: invariant_def)
qed

lemma invariant_frame:
  "products s' = products s \<Longrightarrow> queue_ws2 s' = queue_ws2 s \<Longrightarrow>
   finished_ids s' = finished_ids s \<Longrightarrow> ws2_current_id s' = ws2_current_id s \<Longrightarrow>
   next_pid s' = next_pid s \<Longrightarrow> invariant s' = invariant s"
  by (simp add: invariant_def inv_ids_def inv_wf_def inv_ws1_def inv_queue_def inv_ws2_def
      inv_finished_def cong: option.case_cong)

lemma tick_schedule_idle:
  "\<not> (now s \<ge> ws1_busy_until s \<and>
      (products s = [] \<or>
       state (last (products s)) \<in> {produced, in_queue_ws2, processing_ws2, finished})) \<Longrightarrow>
   tick_schedule g s = s"
  by (simp only: tick_schedule_def if_False)

lemma tick_schedule_fire:
  "now s \<ge> ws1_busy_until s \<and>
      (products s = [] \<or>
       state (last (products s)) \<in> {produced, in_queue_ws2, processing_ws2, finished}) \<Longrightarrow>
   tick_schedule g s =
     (schedule_next_ws1 g s)\<lparr>ws1_busy_until :=
        ws1_busy_until (schedule_next_ws1 g s) + 1 / 1000000\<rparr>"
  by (simp add: tick_schedule_def Let_def)

lemma tick_schedule_invariant:
  assumes "invariant s"
  shows "invariant (tick_schedule g s)"
proof (cases "now s \<ge> ws1_busy_until s \<and>
      (products s = [] \<or>
       state (last (products s)) \<in> {produced, in_queue_ws2, processing_ws2, finished})")
  case False
  from tick_schedule_idle [OF False] assms show ?thesis by simp
next
  case True
  then have "products s = [] \<or> state (last (products s)) \<noteq> producing_ws1" by auto
  from schedule_next_ws1_invariant [OF assms this, of g]
  have "invariant (schedule_next_ws1 g s)" .
  moreover have "invariant (tick_schedule g s) = invariant (schedule_next_ws1 g s)"
    unfolding tick_schedule_fire [OF True] by (rule invariant_frame) simp_all
  ultimately show ?thesis by simp
qed

lemma tick_clock_invariant: "invariant (tick_clock dt s) = invariant s"
  by (rule invariant_frame) (simp_all add: tick_clock_def)

lemma tick_completion_None:
  "ws2_current_id s = None \<Longrightarrow> tick_completion s = Inr s"
  by (simp add: tick_completion_def)

lemma tick_completion_wait:
  "ws2_current_id s = Some i \<Longrightarrow> find (\<lambda>pp. pid pp = i) (products s) = Some p \<Longrightarrow>
   \<not> now s \<ge> ws2_busy_until s \<Longrightarrow> tick_completion s = Inr s"
  by (simp add: tick_completion_def)

lemma tick_completion_done:
  "ws2_current_id s = Some i \<Longrightarrow> find (\<lambda>pp. pid pp = i) (products s) = Some p \<Longrightarrow>
   now s \<ge> ws2_busy_until s \<Longrightarrow>
   tick_completion s =
     Inr (s\<lparr>products := modify_first i
                (\<lambda>p. p\<lparr>t_proc_done := Some (ws2_busy_until s), state := finished\<rparr>) (products s),
            finished_ids := finished_ids s @ [pid p],
            ws2_current_id := None\<rparr>)"
  by (simp add: tick_completion_def)

lemma completion_invariant:
  assumes inv: "invariant s" and cur: "ws2_current_id s = Some i"
    and f: "\<And>p. pid (f p) = pid p \<and> state (f p) = finished \<and> pos_x (f p) = pos_x p \<and>
               pos_y (f p) = pos_y p"
  shows "invariant (s\<lparr>products := map (\<lambda>p. if pid p = i then f p else p) (products s),
            finished_ids := finished_ids s @ [i], ws2_current_id := None\<rparr>)"
proof -
  define u where "u = (\<lambda>p. if pid p = i then f p else p)"
  let ?s' = "s\<lparr>products := map u (products s),
            finished_ids := finished_ids s @ [i], ws2_current_id := None\<rparr>"
  from inv have ids: "distinct (map pid (products s))"
    by (simp add: invariant_def inv_ids_def)
  from inv cur have ws2: "\<exists>p\<in>set (products s). pid p = i"
    "\<forall>p\<in>set (products s). state p = processing_ws2 \<longleftrightarrow> pid p = i"
    by (simp_all add: invariant_def inv_ws2_def)
  have pid_u [simp]: "pid (u p) = pid p" for p using f by (simp add: u_def)
  have u_other: "u p = p" if "pid p \<noteq> i" for p using that by (simp add: u_def)
  have u_cur: "state (u p) = finished" if "pid p = i" for p using that f by (simp add: u_def)
  have u_wf: "wf_product (u p)" if "wf_product p" for p
    using that f [of p] by (simp add: u_def wf_product_def)
  have u_state: "state (u p) = state p" if "state p \<noteq> processing_ws2" "p \<in> set (products s)" for p
    using that ws2(2) u_other by auto
  have 1: "inv_ids ?s'"
    using inv by (simp add: invariant_def inv_ids_def o_def)
  have 2: "inv_wf ?s'"
    using inv u_wf by (simp add: invariant_def inv_wf_def)
  have 3: "inv_ws1 ?s'"
  proof -
    have "state (u p) \<noteq> producing_ws1" if "p \<in> set (butlast (products s))" for p
    proof (cases "pid p = i")
      case True
      with u_cur show ?thesis by simp
    next
      case False
      from inv that have "state p \<noteq> producing_ws1" by (simp add: invariant_def inv_ws1_def)
      with False u_other show ?thesis by simp
    qed
    then show ?thesis by (simp add: inv_ws1_def map_butlast [symmetric])
  qed
  have 4: "inv_queue ?s'"
  proof -
    have "\<exists>p\<in>set (products s). pid p = j \<and> state (u p) = in_queue_ws2"
      if "j \<in> set (queue_ws2 s)" for j
    proof -
      from inv that obtain p where p: "p \<in> set (products s)" "pid p = j" "state p = in_queue_ws2"
        by (auto simp add: invariant_def inv_queue_def)
      with u_state [of p] show ?thesis by auto
    qed
    with inv show ?thesis by (simp add: invariant_def inv_queue_def)
  qed
  have 5: "inv_ws2 ?s'"
  proof -
    have "state (u p) \<noteq> processing_ws2" if "p \<in> set (products s)" for p
    proof (cases "pid p = i")
      case True
      with u_cur show ?thesis by simp
    next
      case False
      with ws2(2) that u_other show ?thesis by simp
    qed
    then show ?thesis by (simp add: inv_ws2_def)
  qed
  have 6: "inv_finished ?s'"
  proof -
    have old: "\<exists>p\<in>set (products s). pid p = j \<and> state (u p) = finished"
      if "j \<in> set (finished_ids s)" for j
    proof -
      from inv that obtain p where p: "p \<in> set (products s)" "pid p = j" "state p = finished"
        by (auto simp add: invariant_def inv_finished_def)
      with u_state [of p] show ?thesis by auto
    qed
    have new: "\<exists>p\<in>set (products s). pid p = i \<and> state (u p) = finished"
      using ws2(1) u_cur by auto
    have fresh: "i \<notin> set (finished_ids s)"
    proof
      assume "i \<in> set (finished_ids s)"
      with inv obtain p where p: "p \<in> set (products s)" "pid p = i" "state p = finished"
        by (auto simp add: invariant_def inv_finished_def)
      with ws2(2) show False by auto
    qed
    from inv have "distinct (finished_ids s)" by (simp add: invariant_def inv_finished_def)
    with old new fresh show ?thesis by (simp add: inv_finished_def)
  qed
  from 1 2 3 4 5 6 show ?thesis by (simp add: invariant_def u_def)
qed

lemma tick_completion_invariant:
  assumes inv: "invariant s"
  shows "\<exists>s'. tick_completion s = Inr s' \<and> invariant s' \<and> queue_ws2 s' = queue_ws2 s"
proof (cases "ws2_current_id s")
  case None
  with inv show ?thesis by (simp add: tick_completion_None)
next
  case (Some i)
  from inv have ids: "distinct (map pid (products s))"
    by (simp add: invariant_def inv_ids_def)
  from inv Some obtain p where p: "p \<in> set (products s)" "pid p = i"
    by (auto simp add: invariant_def inv_ws2_def)
  from find_pid [OF p(1) ids] p(2) have fnd: "find (\<lambda>pp. pid pp = i) (products s) = Some p"
    by simp
  show ?thesis
  proof (cases "now s \<ge> ws2_busy_until s")
    case False
    from tick_completion_wait [OF Some fnd False] inv show ?thesis by simp
  next
    case True
    let ?f = "\<lambda>p. p\<lparr>t_proc_done := Some (ws2_busy_until s), state := finished\<rparr>"
    have "invariant (s\<lparr>products := map (\<lambda>p. if pid p = i then ?f p else p) (products s),
            finished_ids := finished_ids s @ [i], ws2_current_id := None\<rparr>)"
      by (rule completion_invariant [OF inv Some]) simp
    with tick_completion_done [OF Some fnd True] p(2) show ?thesis
      by (simp add: modify_first_map [OF ids])
  qed
qed

lemma try_start_ws2_idle:
  "\<not> (ws2_current_id s = None \<and> queue_ws2 s \<noteq> []) \<Longrightarrow> try_start_ws2 s = Inr s"
  by (simp only: try_start_ws2_def if_False)

lemma try_start_ws2_fire:
  "ws2_current_id s = None \<Longrightarrow> queue_ws2 s = i # q \<Longrightarrow>
   find (\<lambda>pp. pid pp = i) (products s) = Some p \<Longrightarrow>
   try_start_ws2 s =
     Inr (s\<lparr>queue_ws2 := q,
            products := modify_first i
               (\<lambda>p. p\<lparr>t_proc_start := Some (now s), state := processing_ws2\<rparr>) (products s),
            ws2_current_id := Some i,
            ws2_busy_until := now s + of_int (proc_time p)\<rparr>)"
  by (simp add: try_start_ws2_def)

lemma start_invariant:
  assumes inv: "invariant s" and cur: "ws2_current_id s = None" and q: "queue_ws2 s = i # q"
    and f: "\<And>p. pid (f p) = pid p \<and> state (f p) = processing_ws2 \<and> pos_x (f p) = pos_x p \<and>
               pos_y (f p) = pos_y p"
  shows "invariant (s\<lparr>queue_ws2 := q,
            products := map (\<lambda>p. if pid p = i then f p else p) (products s),
            ws2_current_id := Some i, ws2_busy_until := b\<rparr>)"
proof -
  define u where "u = (\<lambda>p. if pid p = i then f p else p)"
  let ?s' = "s\<lparr>queue_ws2 := q, products := map u (products s),
            ws2_current_id := Some i, ws2_busy_until := b\<rparr>"
  from inv have ids: "distinct (map pid (products s))"
    by (simp add: invariant_def inv_ids_def)
  from inv cur have ws2: "\<forall>p\<in>set (products s). state p \<noteq> processing_ws2"
    by (simp add: invariant_def inv_ws2_def)
  from inv q have qd: "i \<notin> set q" "distinct q"
    and qm: "\<forall>j\<in>set (i # q). \<exists>p\<in>set (products s). pid p = j \<and> state p = in_queue_ws2"
    by (simp_all add: invariant_def inv_queue_def)
  from qm obtain pi where pi: "pi \<in> set (products s)" "pid pi = i" "state pi = in_queue_ws2"
    by auto
  have pid_u [simp]: "pid (u p) = pid p" for p using f by (simp add: u_def)
  have u_other: "u p = p" if "pid p \<noteq> i" for p using that by (simp add: u_def)
  have u_cur: "state (u p) = processing_ws2" if "pid p = i" for p using that f by (simp add: u_def)
  have u_wf: "wf_product (u p)" if "wf_product p" for p
    using that f [of p] by (simp add: u_def wf_product_def)
  have only: "p = pi" if "p \<in> set (products s)" "pid p = i" for p
    using pid_inj [OF ids that(1) pi(1)] that(2) pi(2) by simp
  have u_state: "state (u p) = state p" if "state p \<noteq> in_queue_ws2" "p \<in> set (products s)" for p
  proof -
    from that only pi(3) have "pid p \<noteq> i" by auto
    with u_other show ?thesis by simp
  qed
  have 1: "inv_ids ?s'"
    using inv by (simp add: invariant_def inv_ids_def o_def)
  have 2: "inv_wf ?s'"
    using inv u_wf by (simp add: invariant_def inv_wf_def)
  have 3: "inv_ws1 ?s'"
  proof -
    have "state (u p) \<noteq> producing_ws1" if "p \<in> set (butlast (products s))" for p
    proof (cases "pid p = i")
      case True
      with u_cur show ?thesis by simp
    next
      case False
      from inv that have "state p \<noteq> producing_ws1" by (simp add: invariant_def inv_ws1_def)
      with False u_other show ?thesis by simp
    qed
    then show ?thesis by (simp add: inv_ws1_def map_butlast [symmetric])
  qed
  have 4: "inv_queue ?s'"
  proof -
    have "\<exists>p\<in>set (products s). pid p = j \<and> state (u p) = in_queue_ws2"
      if "j \<in> set q" for j
    proof -
      from qm that obtain p where p: "p \<in> set (products s)" "pid p = j" "state p = in_queue_ws2"
        by auto
      from that qd(1) have "j \<noteq> i" by auto
      with p u_other [of p] show ?thesis by auto
    qed
    with qd(2) show ?thesis by (simp add: inv_queue_def)
  qed
  have 5: "inv_ws2 ?s'"
  proof -
    have "state (u p) = processing_ws2 \<longleftrightarrow> pid p = i" if "p \<in> set (products s)" for p
    proof (cases "pid p = i")
      case True
      with u_cur show ?thesis by simp
    next
      case False
      with ws2 that u_other show ?thesis by simp
    qed
    with pi show ?thesis by (auto simp add: inv_ws2_def)
  qed
  have 6: "inv_finished ?s'"
  proof -
    have "\<exists>p\<in>set (products s). pid p = j \<and> state (u p) = finished"
      if "j \<in> set (finished_ids s)" for j
    proof -
      from inv that obtain p where p: "p \<in> set (products s)" "pid p = j" "state p = finished"
        by (auto simp add: invariant_def inv_finished_def)
      with u_state [of p] show ?thesis by auto
    qed
    with inv show ?thesis by (simp add: invariant_def inv_finished_def)
  qed
  from 1 2 3 4 5 6 show ?thesis by (simp add: invariant_def u_def)
qed

lemma try_start_ws2_invariant:
  assumes inv: "invariant s"
  shows "\<exists>s'. try_start_ws2 s = Inr s' \<and> invariant s'"
proof (cases "ws2_current_id s = None \<and> queue_ws2 s \<noteq> []")
  case False
  from try_start_ws2_idle [OF False] inv show ?thesis by simp
next
  case True
  then obtain i q where cur: "ws2_current_id s = None" and q: "queue_ws2 s = i # q"
    by (cases "queue_ws2 s") auto
  from inv have ids: "distinct (map pid (products s))"
    by (simp add: invariant_def inv_ids_def)
  from inv q obtain p where p: "p \<in> set (products s)" "pid p = i"
    by (auto simp add: invariant_def inv_queue_def)
  from find_pid [OF p(1) ids] p(2) have fnd: "find (\<lambda>pp. pid pp = i) (products s) = Some p"
    by simp
  let ?f = "\<lambda>p. p\<lparr>t_proc_start := Some (now s), state := processing_ws2\<rparr>"
  have "invariant (s\<lparr>queue_ws2 := q,
            products := map (\<lambda>p. if pid p = i then ?f p else p) (products s),
            ws2_current_id := Some i, ws2_busy_until := now s + of_int (proc_time p)\<rparr>)"
    by (rule start_invariant [OF inv cur q]) simp
  with try_start_ws2_fire [OF cur q fnd] show ?thesis
    by (simp add: modify_first_map [OF ids])
qed

lemma tick_source_order_invariant:
  assumes inv: "invariant s"
  shows "\<exists>s'. tick_source_order g dt s = Inr s' \<and> invariant s'"
proof -
  from inv have "invariant (tick_clock dt s)" by (simp add: tick_clock_invariant)
  from tick_advance_invariant [OF this] obtain s2 where
    s2: "tick_advance (tick_clock dt s) = Inr s2" "invariant s2" by blast
  from tick_completion_invariant [OF tick_schedule_invariant [OF s2(2), of g]] obtain s4 where
    s4: "tick_completion (tick_schedule g s2) = Inr s4" "invariant s4" by blast
  from try_start_ws2_invariant [OF s4(2)] obtain s5 where
    s5: "try_start_ws2 s4 = Inr s5" "invariant s5" by blast
  from s2(1) s4(1) s5 show ?thesis by (simp add: tick_source_order_def bind_err_def)
qed

lemma update_invariant:
  "invariant s \<Longrightarrow> \<exists>s'. update g dt s = Inr s' \<and> invariant s'"
  using tick_source_order_invariant [of s g dt] by (simp add: update_phases)

lemma reset_invariant: "invariant (reset g)"
  unfolding reset_def
  by (rule schedule_next_ws1_invariant)
    (simp_all add: invariant_def inv_ids_def inv_wf_def inv_ws1_def inv_queue_def inv_ws2_def
      inv_finished_def)

lemma apply_event_invariant:
  assumes "invariant s"
  shows "\<exists>s'. apply_event ev s = Inr s' \<and> invariant s'"
proof (cases ev)
  case (Tick g dt)
  with update_invariant [OF assms, of g dt] show ?thesis by simp
next
  case Start
  have "invariant (start s) = invariant s"
    by (rule invariant_frame) (simp_all add: start_def)
  with Start assms show ?thesis by simp
next
  case Pause
  have "invariant (pause s) = invariant s"
    by (rule invariant_frame) (simp_all add: pause_def)
  with Pause assms show ?thesis by simp
next
  case Toggle
  have "invariant (toggle s) = invariant s"
    by (rule invariant_frame) (simp_all add: toggle_def)
  with Toggle assms show ?thesis by simp
next
  case (Reset g)
  with reset_invariant [of g] show ?thesis by simp
next
  case (SetSpeed v)
  have "invariant (set_speed v s) = invariant s"
    by (rule invariant_frame) (simp_all add: set_speed_def)
  with SetSpeed assms show ?thesis by simp
qed

lemma run_invariant:
  "invariant s \<Longrightarrow> \<exists>s'. run evs s = Inr s' \<and> invariant s'"
proof (induction evs arbitrary: s)
  case Nil
  then show ?case by simp
next
  case (Cons ev evs)
  from apply_event_invariant [OF Cons.prems, of ev] obtain s1 where
    s1: "apply_event ev s = Inr s1" "invariant s1" by blast
  from Cons.IH [OF s1(2)] s1(1) show ?case by simp
qed

lemma reachable_invariant:
  "run evs (reset g) = Inr s \<Longrightarrow> invariant s"
  using run_invariant [OF reset_invariant, of evs g] by auto

lemmas eval_defs = reset_def schedule_next_ws1_def Product_init_def rand_def config_defs
  update_def advance_product_def produce_step_def transfer_step_def try_start_ws2_def
  start_def pause_def toggle_def set_speed_def Let_def arrived_def demo_rng_def count_state_def

section \<open>Facts about single ticks and runs\<close>

lemma reset_flags [simp]:
  "running (reset g) = False" "paused (reset g) = True" "speed (reset g) = 1" "now (reset g) = 0"
  "queue_ws2 (reset g) = []" "finished_ids (reset g) = []" "ws2_current_id (reset g) = None"
  by (simp_all add: reset_def)

lemma passive_run:
  "\<not> running s \<Longrightarrow> paused s \<Longrightarrow> list_all passive_event evs \<Longrightarrow>
     \<exists>v. run evs s = Inr (set_speed v s)"
proof (induction evs arbitrary: s)
  case Nil
  have "set_speed (speed s) s = s" by (simp add: set_speed_def)
  then have "run [] s = Inr (set_speed (speed s) s)" by simp
  then show ?case by blast
next
  case (Cons ev evs)
  from Cons.prems(3) have pev: "passive_event ev" and pevs: "list_all passive_event evs" by simp_all
  have "\<exists>w. apply_event ev s = Inr (set_speed w s)"
  proof (cases ev)
    case (Tick g dt)
    with Cons.prems(1) have "apply_event ev s = Inr s" by (simp add: update_def)
    moreover have "set_speed (speed s) s = s" by (simp add: set_speed_def)
    ultimately have "apply_event ev s = Inr (set_speed (speed s) s)" by simp
    then show ?thesis by blast
  next
    case Pause
    from Cons.prems(2) have "pause s = set_speed (speed s) s" by (simp add: pause_def set_speed_def)
    with Pause have "apply_event ev s = Inr (set_speed (speed s) s)" by simp
    then show ?thesis by blast
  next
    case (SetSpeed v)
    then show ?thesis by auto
  qed (use pev in simp_all)
  then obtain w where w: "apply_event ev s = Inr (set_speed w s)" by blast
  have "\<not> running (set_speed w s)" "paused (set_speed w s)"
    using Cons.prems(1,2) by (simp_all add: set_speed_def)
  from Cons.IH [OF this pevs] obtain v where
    "run evs (set_speed w s) = Inr (set_speed v (set_speed w s))" by blast
  moreover have "set_speed v (set_speed w s) = set_speed v s" by (simp add: set_speed_def)
  ultimately have "run (ev # evs) s = Inr (set_speed v s)" using w by simp
  then show ?case by blast
qed

lemma ticks_run:
  "\<not> running s \<or> paused s \<Longrightarrow> list_all is_tick evs \<Longrightarrow> run evs s = Inr s"
proof (induction evs)
  case Nil
  show ?case by simp
next
  case (Cons ev evs)
  from Cons.prems(2) obtain g dt where "ev = Tick g dt" by (cases ev) simp_all
  with Cons show ?case by (simp add: update_def)
qed

lemma update_speed:
  "update g dt s = Inr s' \<Longrightarrow> speed s' = speed s"
proof (cases "\<not> running s \<or> paused s")
  case True
  assume "update g dt s = Inr s'"
  with True show ?thesis by (simp add: update_def)
next
  case False
  assume u: "update g dt s = Inr s'"
  with False obtain s2 s4 where
    s2: "tick_advance (tick_clock dt s) = Inr s2" and
    s4: "tick_completion (tick_schedule g s2) = Inr s4" and
    s5: "try_start_ws2 s4 = Inr s'"
    by (auto simp add: update_phases tick_source_order_def bind_err_def split: sum.splits)
  from s2 have "speed s2 = speed s"
    by (auto simp add: tick_advance_def tick_clock_def split: sum.splits prod.splits)
  moreover have "speed (tick_schedule g s2) = speed s2"
    by (simp add: tick_schedule_def Let_def)
  moreover from s4 have "speed s4 = speed (tick_schedule g s2)"
    by (auto simp add: tick_completion_def split: option.splits if_splits)
  moreover from s5 have "speed s' = speed s4"
    by (auto simp add: try_start_ws2_def split: option.splits if_splits)
  ultimately show ?thesis by simp
qed

lemma driver_speed_step:
  assumes "speed s \<in> {1, 2, 5, 10, 20}" "driver_event ev" "apply_event ev s = Inr s'"
  shows "speed s' \<in> {1, 2, 5, 10, 20}"
proof (cases ev)
  case (Tick g dt)
  with assms(3) have "speed s' = speed s" by (simp add: update_speed)
  with assms(1) show ?thesis by simp
next
  case (SetSpeed v)
  with assms(2,3) show ?thesis by (auto simp add: set_speed_def)
next
  case (Reset g)
  with assms(3) show ?thesis by auto
qed (use assms in \<open>auto simp add: start_def pause_def toggle_def\<close>)

lemma driver_speed_run:
  "speed s \<in> {1, 2, 5, 10, 20} \<Longrightarrow> list_all driver_event evs \<Longrightarrow> run evs s = Inr s' \<Longrightarrow>
     speed s' \<in> {1, 2, 5, 10, 20}"
proof (induction evs arbitrary: s)
  case Nil
  then show ?case by simp
next
  case (Cons ev evs)
  from Cons.prems(3) obtain s1 where s1: "apply_event ev s = Inr s1" "run evs s1 = Inr s'"
    by (auto split: sum.splits)
  from Cons.prems(2) have d: "driver_event ev" "list_all driver_event evs" by simp_all
  from driver_speed_step [OF Cons.prems(1) d(1) s1(1)] have "speed s1 \<in> {1, 2, 5, 10, 20}" .
  from Cons.IH [OF this d(2) s1(2)] show ?case .
qed

lemma modify_first_length [simp]: "length (modify_first i f ps) = length ps"
  by (induction ps) simp_all

lemma modify_first_nth:
  "k < length ps \<Longrightarrow> modify_first i f ps ! k = ps ! k \<or> modify_first i f ps ! k = f (ps ! k)"
proof (induction ps arbitrary: k)
  case Nil
  then show ?case by simp
next
  case (Cons p ps)
  show ?case
  proof (cases k)
    case 0
    then show ?thesis by simp
  next
    case (Suc j)
    with Cons.prems have "j < length ps" by simp
    from Cons.IH [OF this] Suc show ?thesis by auto
  qed
qed

lemma tick_advance_frame:
  assumes "tick_advance s = Inr s'"
  shows "s' = s\<lparr>products := map (adv (now s)) (products s),
              queue_ws2 := queue_ws2 s @ concat (map (arr (now s)) (products s))\<rparr>"
proof -
  from assms obtain ps q where a: "advance_products (now s) (products s) (queue_ws2 s) = Inr (ps, q)"
    and s': "s' = s\<lparr>products := ps, queue_ws2 := q\<rparr>"
    by (auto simp add: tick_advance_def split: sum.splits prod.splits)
  from advance_products_Inr [OF a] s' show ?thesis by simp
qed

lemma tick_completion_cases:
  assumes "tick_completion s = Inr s'"
  obtains (same) "s' = s"
  | (completed) i p where "ws2_current_id s = Some i"
      "find (\<lambda>pp. pid pp = i) (products s) = Some p"
      "now s \<ge> ws2_busy_until s"
      "s' = s\<lparr>products := modify_first i
                (\<lambda>p. p\<lparr>t_proc_done := Some (ws2_busy_until s), state := finished\<rparr>) (products s),
              finished_ids := finished_ids s @ [pid p],
              ws2_current_id := None\<rparr>"
proof (cases "ws2_current_id s")
  case None
  from tick_completion_None [OF None] assms have "s' = s" by simp
  then show ?thesis by (rule same)
next
  case (Some i)
  show ?thesis
  proof (cases "find (\<lambda>pp. pid pp = i) (products s)")
    case None
    with Some assms show ?thesis by (simp add: tick_completion_def)
  next
    case fnd: (Some p)
    show ?thesis
    proof (cases "now s \<ge> ws2_busy_until s")
      case False
      from tick_completion_wait [OF Some fnd False] assms have "s' = s" by simp
      then show ?thesis by (rule same)
    next
      case True
      from tick_completion_done [OF Some fnd True] assms
      have "s' = s\<lparr>products := modify_first i
                (\<lambda>p. p\<lparr>t_proc_done := Some (ws2_busy_until s), state := finished\<rparr>) (products s),
              finished_ids := finished_ids s @ [pid p],
              ws2_current_id := None\<rparr>" by simp
      with Some fnd True show ?thesis by (rule completed)
    qed
  qed
qed

lemma tick_completion_frame:
  assumes "tick_completion s = Inr s'"
  shows "length (products s') = length (products s) \<and> now s' = now s \<and>
         queue_ws2 s' = queue_ws2 s \<and>
         (\<forall>k<length (products s). state (products s' ! k) = state (products s ! k) \<or>
              state (products s' ! k) = finished)"
  using assms
proof (cases rule: tick_completion_cases)
  case same
  then show ?thesis by simp
next
  case (completed i p)
  note s' = completed(4)
  have "state (products s' ! k) = state (products s ! k) \<or> state (products s' ! k) = finished"
    if "k < length (products s)" for k
    using modify_first_nth [OF that, of i
        "\<lambda>p. p\<lparr>t_proc_done := Some (ws2_busy_until s), state := finished\<rparr>"]
    by (auto simp add: s')
  then show ?thesis by (simp add: s')
qed

lemma try_start_ws2_cases:
  assumes "try_start_ws2 s = Inr s'"
  obtains (same) "s' = s"
  | (fire) i q p where "ws2_current_id s = None" "queue_ws2 s = i # q"
      "find (\<lambda>pp. pid pp = i) (products s) = Some p"
      "s' = s\<lparr>queue_ws2 := q,
            products := modify_first i
               (\<lambda>p. p\<lparr>t_proc_start := Some (now s), state := processing_ws2\<rparr>) (products s),
            ws2_current_id := Some i,
            ws2_busy_until := now s + of_int (proc_time p)\<rparr>"
proof (cases "ws2_current_id s = None \<and> queue_ws2 s \<noteq> []")
  case False
  from try_start_ws2_idle [OF False] assms have "s' = s" by simp
  then show ?thesis by (rule same)
next
  case True
  then obtain i q where cur: "ws2_current_id s = None" and q: "queue_ws2 s = i # q"
    by (cases "queue_ws2 s") auto
  show ?thesis
  proof (cases "find (\<lambda>pp. pid pp = i) (products s)")
    case None
    with cur q assms show ?thesis by (simp add: try_start_ws2_def)
  next
    case fnd: (Some p)
    from try_start_ws2_fire [OF cur q fnd] assms
    have "s' = s\<lparr>queue_ws2 := q,
            products := modify_first i
               (\<lambda>p. p\<lparr>t_proc_start := Some (now s), state := processing_ws2\<rparr>) (products s),
            ws2_current_id := Some i,
            ws2_busy_until := now s + of_int (proc_time p)\<rparr>" by simp
    with cur q fnd show ?thesis by (rule fire)
  qed
qed

lemma try_start_ws2_guard:
  assumes "try_start_ws2 s = Inr s'" "s' \<noteq> s"
  shows "ws2_current_id s = None \<and> queue_ws2 s \<noteq> []"
  using assms(1)
proof (cases rule: try_start_ws2_cases)
  case same
  with assms(2) show ?thesis by simp
next
  case (fire i q p)
  then show ?thesis by simp
qed

lemma try_start_ws2_frame:
  assumes "try_start_ws2 s = Inr s'"
  shows "length (products s') = length (products s) \<and> now s' = now s \<and>
         (\<forall>k<length (products s). state (products s' ! k) = state (products s ! k) \<or>
              state (products s' ! k) = processing_ws2)"
  using assms
proof (cases rule: try_start_ws2_cases)
  case same
  then show ?thesis by simp
next
  case (fire i q p)
  note s' = fire(4)
  have "state (products s' ! k) = state (products s ! k) \<or> state (products s' ! k) = processing_ws2"
    if "k < length (products s)" for k
    using modify_first_nth [OF that, of i
        "\<lambda>p. p\<lparr>t_proc_start := Some (now s), state := processing_ws2\<rparr>"]
    by (auto simp add: s')
  then show ?thesis by (simp add: s')
qed

lemma update_sections:
  assumes "update g dt s = Inr s'" "\<not> (\<not> running s \<or> paused s)"
  obtains s2 s4 where "tick_advance (tick_clock dt s) = Inr s2"
    "tick_completion (tick_schedule g s2) = Inr s4" "try_start_ws2 s4 = Inr s'"
proof -
  from assms have t: "tick_source_order g dt s = Inr s'" by (simp add: update_phases)
  then obtain s2 where s2: "tick_advance (tick_clock dt s) = Inr s2"
    by (cases "tick_advance (tick_clock dt s)") (simp_all add: tick_source_order_def bind_err_def)
  with t obtain s4 where s4: "tick_completion (tick_schedule g s2) = Inr s4"
    by (cases "tick_completion (tick_schedule g s2)")
      (simp_all add: tick_source_order_def bind_err_def)
  from t s2 s4 have "try_start_ws2 s4 = Inr s'"
    by (simp add: tick_source_order_def bind_err_def)
  with s2 s4 show ?thesis by (rule that)
qed

lemma update_schedule_guard:
  assumes u: "update g dt t = Inr t'"
    and len: "length (products t') \<noteq> length (products t)"
  shows "ws1_busy_until t \<le> now t' \<and>
         (products t = [] \<or>
          state (products t' ! (length (products t) - 1)) \<in>
            {produced, in_queue_ws2, processing_ws2, finished})"
proof -
  have act: "\<not> (\<not> running t \<or> paused t)"
  proof
    assume "\<not> running t \<or> paused t"
    with u have "t' = t" by (simp add: update_def)
    with len show False by simp
  qed
  from u act obtain s2 s4 where s2: "tick_advance (tick_clock dt t) = Inr s2"
    and s4: "tick_completion (tick_schedule g s2) = Inr s4" and s5: "try_start_ws2 s4 = Inr t'"
    by (rule update_sections)
  let ?n = "length (products t)"
  let ?s3 = "tick_schedule g s2"
  note f2 = tick_advance_frame [OF s2]
  note f4 = tick_completion_frame [OF s4]
  note f5 = try_start_ws2_frame [OF s5]
  from f2 have n2: "length (products s2) = ?n" by (simp add: tick_clock_def)
  from f2 have now2: "now s2 = now t + dt * speed t" "ws1_busy_until s2 = ws1_busy_until t"
    by (simp_all add: tick_clock_def)
  have fire: "now s2 \<ge> ws1_busy_until s2 \<and>
      (products s2 = [] \<or>
       state (last (products s2)) \<in> {produced, in_queue_ws2, processing_ws2, finished})"
  proof (rule ccontr)
    assume "\<not> ?thesis"
    from tick_schedule_idle [OF this, of g] have "?s3 = s2" .
    with f4 f5 n2 len show False by simp
  qed
  obtain p where p: "products (schedule_next_ws1 g s2) = products s2 @ [p]"
    using schedule_next_ws1_products [of g s2] by blast
  have p3: "products ?s3 = products s2 @ [p]" "now ?s3 = now s2"
    by (simp_all add: tick_schedule_fire [OF fire] p)
  from f4 f5 p3 fire now2 have time: "ws1_busy_until t \<le> now t'" by simp
  have last: "state (products t' ! (?n - 1)) \<in> {produced, in_queue_ws2, processing_ws2, finished}"
    if ne: "products t \<noteq> []"
  proof -
    from ne n2 have ne2: "products s2 \<noteq> []" by auto
    from ne have k: "?n - 1 < ?n" by simp
    from ne2 have "length (products s2) - 1 < length (products s2)" by simp
    then have "(products s2 @ [p]) ! (length (products s2) - 1) =
        products s2 ! (length (products s2) - 1)"
      by (simp only: nth_append if_True)
    also from ne2 have "\<dots> = last (products s2)" by (rule last_conv_nth [symmetric])
    finally have "(products s2 @ [p]) ! (length (products s2) - 1) = last (products s2)" .
    then have "products ?s3 ! (?n - 1) = last (products s2)"
      by (simp only: p3 n2)
    with fire ne2 have 3: "state (products ?s3 ! (?n - 1)) \<in>
        {produced, in_queue_ws2, processing_ws2, finished}" by simp
    have k3: "?n - 1 < length (products ?s3)" using n2 by (simp add: p3)
    with f4 have "state (products s4 ! (?n - 1)) = state (products ?s3 ! (?n - 1)) \<or>
        state (products s4 ! (?n - 1)) = finished" by blast
    with 3 have 4: "state (products s4 ! (?n - 1)) \<in>
        {produced, in_queue_ws2, processing_ws2, finished}" by auto
    from k3 f4 have "?n - 1 < length (products s4)" by simp
    with f5 have "state (products t' ! (?n - 1)) = state (products s4 ! (?n - 1)) \<or>
        state (products t' ! (?n - 1)) = processing_ws2" by blast
    with 4 show ?thesis by auto
  qed
  from time last show ?thesis by blast
qed

lemma count_pid:
  "distinct (map pid ps) \<Longrightarrow> length (filter (\<lambda>p. pid p = i) ps) \<le> 1"
proof (induction ps)
  case Nil
  show ?case by simp
next
  case (Cons p ps)
  show ?case
  proof (cases "pid p = i")
    case True
    with Cons.prems have "\<forall>q\<in>set ps. pid q \<noteq> i" by (auto simp add: image_iff)
    then have "filter (\<lambda>p. pid p = i) ps = []" by (simp add: filter_empty_conv)
    with True show ?thesis by simp
  next
    case False
    with Cons show ?thesis by simp
  qed
qed

lemma invariant_counts:
  assumes "invariant s"
  shows "count_state producing_ws1 s \<le> 1 \<and> count_state processing_ws2 s \<le> 1"
proof -
  have a: "count_state producing_ws1 s \<le> 1"
  proof (cases "products s = []")
    case True
    then show ?thesis by (simp add: count_state_def)
  next
    case False
    then have split: "products s = butlast (products s) @ [last (products s)]" by simp
    from assms have "filter (\<lambda>p. state p = producing_ws1) (butlast (products s)) = []"
      by (simp add: invariant_def inv_ws1_def filter_empty_conv)
    then have "filter (\<lambda>p. state p = producing_ws1) (products s) =
        filter (\<lambda>p. state p = producing_ws1) [last (products s)]"
      by (subst split) (simp del: append_butlast_last_id)
    then show ?thesis by (simp add: count_state_def)
  qed
  have b: "count_state processing_ws2 s \<le> 1"
  proof (cases "ws2_current_id s")
    case None
    with assms have "filter (\<lambda>p. state p = processing_ws2) (products s) = []"
      by (simp add: invariant_def inv_ws2_def filter_empty_conv)
    then show ?thesis by (simp add: count_state_def)
  next
    case (Some i)
    with assms have "\<forall>p\<in>set (products s). state p = processing_ws2 \<longleftrightarrow> pid p = i"
      by (simp add: invariant_def inv_ws2_def)
    then have "filter (\<lambda>p. state p = processing_ws2) (products s) =
        filter (\<lambda>p. pid p = i) (products s)"
      by (intro filter_cong) auto
    moreover from assms have "distinct (map pid (products s))"
      by (simp add: invariant_def inv_ids_def)
    ultimately show ?thesis using count_pid [of "products s" i] by (simp add: count_state_def)
  qed
  from a b show ?thesis by simp
qed

lemma tick_schedule_fields [simp]:
  "finished_ids (tick_schedule g s) = finished_ids s"
  "ws2_current_id (tick_schedule g s) = ws2_current_id s"
  "queue_ws2 (tick_schedule g s) = queue_ws2 s"
  "now (tick_schedule g s) = now s"
  "ws2_busy_until (tick_schedule g s) = ws2_busy_until s"
  by (simp_all add: tick_schedule_def Let_def)

lemma try_start_ws2_finished:
  assumes "try_start_ws2 s = Inr s'"
  shows "finished_ids s' = finished_ids s"
  using assms by (cases rule: try_start_ws2_cases) simp_all

lemma update_finished_grows:
  assumes u: "update g dt s = Inr s'"
  shows "finished_ids s' = finished_ids s \<or>
         (\<exists>i. ws2_current_id s = Some i \<and> finished_ids s' = finished_ids s @ [i])"
proof (cases "\<not> running s \<or> paused s")
  case True
  with u show ?thesis by (simp add: update_def)
next
  case False
  from u False obtain s2 s4 where s2: "tick_advance (tick_clock dt s) = Inr s2"
    and s4: "tick_completion (tick_schedule g s2) = Inr s4" and s5: "try_start_ws2 s4 = Inr s'"
    by (rule update_sections)
  from tick_advance_frame [OF s2]
  have f2: "finished_ids s2 = finished_ids s" "ws2_current_id s2 = ws2_current_id s"
    by (simp_all add: tick_clock_def)
  note f5 = try_start_ws2_finished [OF s5]
  from s4 show ?thesis
  proof (cases rule: tick_completion_cases)
    case same
    with f2 f5 show ?thesis by simp
  next
    case (completed i p)
    from completed(2) have "pid p = i" by (auto simp add: find_Some_iff)
    with completed(1,4) f2 f5 show ?thesis by simp
  qed
qed

lemma run_finished_prefix:
  "list_all (\<lambda>ev. \<not> is_reset ev) evs \<Longrightarrow> run evs s = Inr s' \<Longrightarrow>
     prefix (finished_ids s) (finished_ids s')"
proof (induction evs arbitrary: s)
  case Nil
  then show ?case by simp
next
  case (Cons ev evs)
  from Cons.prems(2) obtain s1 where s1: "apply_event ev s = Inr s1" "run evs s1 = Inr s'"
    by (auto split: sum.splits)
  from Cons.prems(1) have nr: "\<not> is_reset ev" "list_all (\<lambda>ev. \<not> is_reset ev) evs" by simp_all
  have "prefix (finished_ids s) (finished_ids s1)"
  proof (cases ev)
    case (Tick g dt)
    with s1(1) update_finished_grows [of g dt s s1] show ?thesis by auto
  next
    case (Reset g)
    with nr(1) show ?thesis by simp
  qed (use s1(1) in \<open>auto simp add: start_def pause_def toggle_def set_speed_def\<close>)
  also from Cons.IH [OF nr(2) s1(2)] have "prefix (finished_ids s1) (finished_ids s')" .
  finally show ?case .
qed

lemma try_start_ws2_popped:
  assumes "try_start_ws2 s = Inr s'"
  shows "queue_ws2 s = popped s @ queue_ws2 s'"
proof (cases "ws2_current_id s = None \<and> queue_ws2 s \<noteq> []")
  case False
  from try_start_ws2_idle [OF False] assms have "s' = s" by simp
  moreover from False have "popped s = []" by (simp only: popped_def if_False)
  ultimately show ?thesis by simp
next
  case True
  then obtain i q where cur: "ws2_current_id s = None" and q: "queue_ws2 s = i # q"
    by (cases "queue_ws2 s") auto
  show ?thesis
  proof (cases "find (\<lambda>pp. pid pp = i) (products s)")
    case None
    with cur q assms show ?thesis by (simp add: try_start_ws2_def)
  next
    case (Some p)
    from try_start_ws2_fire [OF cur q Some] assms have "queue_ws2 s' = q" by auto
    with cur q show ?thesis by (simp add: popped_def)
  qed
qed

lemma update_queue_history:
  assumes u: "update g dt s = Inr s'"
  shows "queue_ws2 s @ tick_enqueued dt s = tick_dequeued g dt s @ queue_ws2 s'"
proof (cases "\<not> running s \<or> paused s")
  case True
  with u show ?thesis by (simp add: update_def tick_enqueued_def tick_dequeued_def)
next
  case False
  from u False obtain s2 s4 where s2: "tick_advance (tick_clock dt s) = Inr s2"
    and s4: "tick_completion (tick_schedule g s2) = Inr s4" and s5: "try_start_ws2 s4 = Inr s'"
    by (rule update_sections)
  let ?t = "now (tick_clock dt s)"
  let ?ids = "concat (map (arr ?t) (products s))"
  from tick_advance_frame [OF s2] have q2: "queue_ws2 s2 = queue_ws2 s @ ?ids"
    by (simp add: tick_clock_def)
  from s2 obtain ps q where a: "advance_products ?t (products s) (queue_ws2 s) = Inr (ps, q)"
    by (auto simp add: tick_advance_def tick_clock_def split: sum.splits prod.splits)
  then obtain ps0 ids0 where a0: "advance_products ?t (products s) [] = Inr (ps0, ids0)"
    by (subst (asm) advance_products_queue) (auto split: sum.splits prod.splits)
  from advance_products_Inr [OF a0] have "ids0 = ?ids" by simp
  with a0 False have enq: "tick_enqueued dt s = ?ids"
    by (simp add: tick_enqueued_def)
  from s2 s4 False have deq: "tick_dequeued g dt s = popped s4"
    by (simp add: tick_dequeued_def bind_err_def)
  from tick_completion_frame [OF s4] have "queue_ws2 s4 = queue_ws2 s2" by simp
  with q2 enq deq try_start_ws2_popped [OF s5] show ?thesis by simp
qed

lemma run_traced_history:
  "enqueued h = dequeued h @ queue_ws2 (sim h) \<Longrightarrow> run_traced evs h = Inr h' \<Longrightarrow>
     enqueued h' = dequeued h' @ queue_ws2 (sim h') \<and> run evs (sim h) = Inr (sim h')"
proof (induction evs arbitrary: h)
  case Nil
  then show ?case by simp
next
  case (Cons ev evs)
  from Cons.prems(2) obtain h1 where h1: "apply_traced ev h = Inr h1" "run_traced evs h1 = Inr h'"
    by (auto split: sum.splits)
  have "enqueued h1 = dequeued h1 @ queue_ws2 (sim h1) \<and> apply_event ev (sim h) = Inr (sim h1)"
  proof (cases ev)
    case (Tick g dt)
    with h1(1) obtain s' where s': "update g dt (sim h) = Inr s'"
      and h1': "h1 = \<lparr>sim = s', enqueued = enqueued h @ tick_enqueued dt (sim h),
                      dequeued = dequeued h @ tick_dequeued g dt (sim h)\<rparr>"
      by (auto split: sum.splits)
    from update_queue_history [OF s'] Cons.prems(1) Tick s' show ?thesis by (simp add: h1')
  next
    case (Reset g)
    with h1(1) show ?thesis by auto
  qed (use h1(1) Cons.prems(1) in \<open>auto simp add: start_def pause_def toggle_def set_speed_def\<close>)
  with Cons.IH [OF _ h1(2)] show ?case by simp
qed

lemma run_traced_total:
  "run evs (sim h) = Inr s' \<Longrightarrow> \<exists>h'. run_traced evs h = Inr h'"
proof (induction evs arbitrary: h)
  case Nil
  then show ?case by simp
next
  case (Cons ev evs)
  from Cons.prems obtain s1 where s1: "apply_event ev (sim h) = Inr s1" "run evs s1 = Inr s'"
    by (auto split: sum.splits)
  then obtain h1 where h1: "apply_traced ev h = Inr h1" "sim h1 = s1"
    by (cases ev) auto
  from Cons.IH [of h1] s1(2) h1 show ?case by simp
qed




lemma bind_err_Inr [simp]: "bind_err (Inr a) f = f a"
  by (simp add: bind_err_def)




section \<open>The concrete run, step by step\<close>

lemmas sym_defs = schedule_next_ws1_def Product_init_def rand_def config_defs
  update_def advance_product_def produce_step_def transfer_step_def try_start_ws2_def
  Let_def demo_rng_def
  tick_enqueued_def tick_dequeued_def popped_def tick_clock_def
  tick_advance_def tick_schedule_def tick_completion_def bind_err_def

lemma demo_begin:
  "run_traced [Start, Tick demo_rng 10000] \<lparr>sim = reset demo_rng, enqueued = [], dequeued = []\<rparr> =
     Inr \<lparr>sim = demo_transferring 730 250, enqueued = [], dequeued = []\<rparr>"
  by (simp add: sym_defs reset_def start_def demo_transferring_def)

lemma demo_move:
  "\<not> arrived (x1 + (1060 - x1) * (5 / 100)) (y1 + (255 - y1) * (5 / 100)) 1060 255 \<Longrightarrow>
   apply_traced (Tick demo_rng 0) \<lparr>sim = demo_transferring x1 y1, enqueued = e, dequeued = d\<rparr> =
     Inr \<lparr>sim = demo_transferring (x1 + (1060 - x1) * (5 / 100)) (y1 + (255 - y1) * (5 / 100)),
          enqueued = e, dequeued = d\<rparr>"
  by (simp add: sym_defs demo_transferring_def)

lemma demo_arrive:
  "arrived (x1 + (1060 - x1) * (5 / 100)) (y1 + (255 - y1) * (5 / 100)) 1060 255 \<Longrightarrow>
   apply_traced (Tick demo_rng 0) \<lparr>sim = demo_transferring x1 y1, enqueued = e, dequeued = d\<rparr> =
     Inr \<lparr>sim = demo_processing (x1 + (1060 - x1) * (5 / 100)) (y1 + (255 - y1) * (5 / 100)),
          enqueued = e @ [1], dequeued = d @ [1]\<rparr>"
  by (simp add: sym_defs demo_transferring_def demo_processing_def)

lemma demo_complete:
  "apply_traced (Tick demo_rng 100) \<lparr>sim = demo_processing x1 y1, enqueued = e, dequeued = d\<rparr> =
     Inr \<lparr>sim = demo_finished x1 y1, enqueued = e, dequeued = d\<rparr>"
  by (simp add: sym_defs demo_processing_def demo_finished_def)


lemma demo_x_closed: "demo_x n = 1060 - 330 * (19 / 20) ^ n"
  by (induction n) (simp_all add: algebra_simps)

lemma demo_y_closed: "demo_y n = 255 - 5 * (19 / 20) ^ n"
  by (induction n) (simp_all add: algebra_simps)

lemma demo_far:
  assumes "n \<le> 99"
  shows "\<not> arrived (demo_x n) (demo_y n) 1060 255"
proof -
  have "(19 / 20 :: real) ^ 99 \<le> (19 / 20) ^ n"
    using assms by (intro power_decreasing) simp_all
  moreover have "(2 :: real) \<le> 330 * (19 / 20) ^ 99" by (simp add: power_divide)
  ultimately have "(2 :: real) \<le> 330 * (19 / 20) ^ n" by linarith
  then show ?thesis by (simp add: arrived_def demo_x_closed)
qed

lemma demo_near: "arrived (demo_x 100) (demo_y 100) 1060 255"
  by (simp add: arrived_def demo_x_closed demo_y_closed power_divide)

lemma demo_moves:
  "n + k \<le> 99 \<Longrightarrow>
   run_traced (replicate k (Tick demo_rng 0))
     \<lparr>sim = demo_transferring (demo_x n) (demo_y n), enqueued = e, dequeued = d\<rparr> =
   Inr \<lparr>sim = demo_transferring (demo_x (n + k)) (demo_y (n + k)), enqueued = e, dequeued = d\<rparr>"
proof (induction k arbitrary: n)
  case 0
  show ?case by simp
next
  case (Suc k)
  from Suc.prems have "Suc n \<le> 99" by simp
  from demo_far [OF this]
  have "\<not> arrived (demo_x n + (1060 - demo_x n) * (5 / 100))
      (demo_y n + (255 - demo_y n) * (5 / 100)) 1060 255" by simp
  from demo_move [OF this, of e d]
  have step: "apply_traced (Tick demo_rng 0)
      \<lparr>sim = demo_transferring (demo_x n) (demo_y n), enqueued = e, dequeued = d\<rparr> =
      Inr \<lparr>sim = demo_transferring (demo_x (Suc n)) (demo_y (Suc n)), enqueued = e, dequeued = d\<rparr>"
    by simp
  from Suc.prems have "Suc n + k \<le> 99" by simp
  from Suc.IH [OF this] step show ?case by simp
qed

lemma run_traced_append:
  "run_traced (xs @ ys) h = (case run_traced xs h of Inl e \<Rightarrow> Inl e | Inr h' \<Rightarrow> run_traced ys h')"
  by (induction xs arbitrary: h) (simp_all split: sum.splits)

lemma demo_prefix_traced:
  "run_traced demo_prefix \<lparr>sim = reset demo_rng, enqueued = [], dequeued = []\<rparr> =
     Inr \<lparr>sim = demo_started, enqueued = [1], dequeued = [1]\<rparr>"
proof -
  have "(0::nat) + 99 \<le> 99" by simp
  from demo_moves [OF this, of "[]" "[]"]
  have a: "run_traced (replicate 99 (Tick demo_rng 0))
      \<lparr>sim = demo_transferring 730 250, enqueued = [], dequeued = []\<rparr> =
      Inr \<lparr>sim = demo_transferring (demo_x 99) (demo_y 99), enqueued = [], dequeued = []\<rparr>"
    by (simp only: add_0 demo_x.simps demo_y.simps)
  have s100: "(100::nat) = Suc 99" by simp
  have x100: "demo_x 100 = demo_x 99 + (1060 - demo_x 99) * (5 / 100)"
    and y100: "demo_y 100 = demo_y 99 + (255 - demo_y 99) * (5 / 100)"
    by (simp_all only: s100 demo_x.simps demo_y.simps)
  from demo_near have "arrived (demo_x 99 + (1060 - demo_x 99) * (5 / 100))
      (demo_y 99 + (255 - demo_y 99) * (5 / 100)) 1060 255"
    by (simp only: x100 y100)
  from demo_arrive [OF this, of "[]" "[]"]
  have b: "apply_traced (Tick demo_rng 0)
      \<lparr>sim = demo_transferring (demo_x 99) (demo_y 99), enqueued = [], dequeued = []\<rparr> =
      Inr \<lparr>sim = demo_started, enqueued = [1], dequeued = [1]\<rparr>"
    by (simp only: demo_started_def x100 y100 append_Nil)
  then have c: "run_traced [Tick demo_rng 0]
      \<lparr>sim = demo_transferring (demo_x 99) (demo_y 99), enqueued = [], dequeued = []\<rparr> =
      Inr \<lparr>sim = demo_started, enqueued = [1], dequeued = [1]\<rparr>"
    by (simp only: run_traced.simps sum.case)
  show ?thesis
    unfolding demo_prefix_def
    by (simp only: run_traced_append demo_begin a c sum.case)
qed

lemma demo_events_traced:
  "run_traced demo_events \<lparr>sim = reset demo_rng, enqueued = [], dequeued = []\<rparr> =
     Inr \<lparr>sim = demo_final, enqueued = [1], dequeued = [1]\<rparr>"
proof -
  have "run_traced [Tick demo_rng 100] \<lparr>sim = demo_started, enqueued = [1], dequeued = [1]\<rparr> =
      Inr \<lparr>sim = demo_final, enqueued = [1], dequeued = [1]\<rparr>"
    by (simp only: run_traced.simps demo_complete demo_started_def demo_final_def sum.case)
  then show ?thesis
    unfolding demo_events_def
    by (simp only: run_traced_append demo_prefix_traced sum.case)
qed

lemma demo_prefix_run: "run demo_prefix (reset demo_rng) = Inr demo_started"
  using run_traced_history [OF _ demo_prefix_traced] by simp

lemma demo_events_run: "run demo_events (reset demo_rng) = Inr demo_final"
  using run_traced_history [OF _ demo_events_traced] by simp

lemma demo_last_tick: "update demo_rng 100 demo_started = Inr demo_final"
  by (simp add: sym_defs demo_started_def demo_final_def demo_processing_def demo_finished_def)

section \<open>Claims\<close>

text \<open>
  C1. In every state reached from \<open>reset\<close> by ticks and commands, at most one
  product is in state \<open>producing_ws1\<close> and at most one in state
  \<open>processing_ws2\<close>. A tick schedules a new product only when the new time has
  reached the WS1 busy-until time and the most recent product is \<open>produced\<close>,
  \<open>in_queue_ws2\<close>, \<open>processing_ws2\<close> or \<open>finished\<close>; \<open>_try_start_ws2\<close>
  changes the state only when no WS2 pid is current (and the queue is not empty).
\<close>

theorem single_slot_workshops:
  assumes "run evs (reset g) = Inr s"
  shows "count_state producing_ws1 s \<le> 1 \<and>
         count_state processing_ws2 s \<le> 1 \<and>
         (\<forall>g' dt t t'. update g' dt t = Inr t' \<and> length (products t') \<noteq> length (products t) \<longrightarrow>
            ws1_busy_until t \<le> now t' \<and>
            (products t = [] \<or>
             state (products t' ! (length (products t) - 1)) \<in>
               {produced, in_queue_ws2, processing_ws2, finished})) \<and>
         (\<forall>t t'. try_start_ws2 t = Inr t' \<and> t' \<noteq> t \<longrightarrow>
            ws2_current_id t = None \<and> queue_ws2 t \<noteq> [])"
proof -
  from reachable_invariant [OF assms] have "invariant s" .
  from invariant_counts [OF this] update_schedule_guard try_start_ws2_guard
  show ?thesis by blast
qed

theorem single_slot_workshops_witness:
  "run demo_prefix (reset demo_rng) = Inr demo_started \<and>
   map state (products demo_started) = [processing_ws2, producing_ws1] \<and>
   count_state producing_ws1 demo_started = 1 \<and>
   count_state processing_ws2 demo_started = 1"
proof -
  from single_slot_workshops [OF demo_prefix_run]
  have "count_state producing_ws1 demo_started \<le> 1 \<and> count_state processing_ws2 demo_started \<le> 1"
    by blast
  moreover have "map state (products demo_started) = [processing_ws2, producing_ws1] \<and>
      1 \<le> count_state producing_ws1 demo_started \<and> 1 \<le> count_state processing_ws2 demo_started"
    by (simp add: demo_started_def demo_processing_def count_state_def)
  ultimately show ?thesis using demo_prefix_run by simp
qed

text \<open>
  C2. If \<open>running\<close> is false or \<open>paused\<close> is true, \<open>update\<close> returns the state
  it was given: time, products, queue, finished list, assignment log and counters
  are all unchanged, whatever the elapsed time.
\<close>

theorem update_noop_unless_running:
  "\<not> running s \<or> paused s \<Longrightarrow> update g dt s = Inr s"
  by (simp add: update_def)

theorem update_noop_unless_running_witness:
  "paused (pause (start (reset demo_rng))) \<and>
   update demo_rng 10000 (pause (start (reset demo_rng))) = Inr (pause (start (reset demo_rng)))"
  using update_noop_unless_running [of "pause (start (reset demo_rng))" demo_rng 10000]
  by (simp add: pause_def)



text \<open>
  C4. The WS2 queue is first in, first out. Along every run from \<open>reset\<close>, the
  pids appended to the queue at transfer arrival, in order, are the pids removed
  from it by \<open>_try_start_ws2\<close>, in order, followed by the present content of the
  queue. So the removed pids are a prefix of the appended ones. (A reset discards
  the queue and starts both records afresh.)
\<close>

theorem ws2_queue_fifo:
  "\<exists>h. run_traced evs \<lparr>sim = reset g, enqueued = [], dequeued = []\<rparr> = Inr h \<and>
       run evs (reset g) = Inr (sim h) \<and>
       enqueued h = dequeued h @ queue_ws2 (sim h) \<and>
       prefix (dequeued h) (enqueued h)"
proof -
  let ?h0 = "\<lparr>sim = reset g, enqueued = [], dequeued = []\<rparr>"
  from run_invariant [OF reset_invariant, of evs g] obtain s where "run evs (sim ?h0) = Inr s"
    by auto
  from run_traced_total [OF this] obtain h where h: "run_traced evs ?h0 = Inr h" by blast
  have "enqueued ?h0 = dequeued ?h0 @ queue_ws2 (sim ?h0)" by simp
  from run_traced_history [OF this h]
  have "enqueued h = dequeued h @ queue_ws2 (sim h)" "run evs (reset g) = Inr (sim h)" by simp_all
  with h show ?thesis by auto
qed

theorem ws2_queue_fifo_witness:
  "run_traced demo_events \<lparr>sim = reset demo_rng, enqueued = [], dequeued = []\<rparr> =
     Inr \<lparr>sim = demo_final, enqueued = [1], dequeued = [1]\<rparr> \<and>
   queue_ws2 demo_final = []"
proof -
  from ws2_queue_fifo [of demo_events demo_rng]
  have "enqueued \<lparr>sim = demo_final, enqueued = [1], dequeued = [1]\<rparr> =
      dequeued \<lparr>sim = demo_final, enqueued = [1], dequeued = [1]\<rparr> @ queue_ws2 demo_final"
    by (simp add: demo_events_traced)
  then have "queue_ws2 demo_final = []" by simp
  with demo_events_traced show ?thesis by simp
qed

text \<open>
  C5 (as amended). In every state reached from \<open>reset\<close> the finished list has no
  duplicates. A tick leaves it unchanged or appends one pid: the pid that was
  current in WS2 when the tick began, whose product was then in state
  \<open>processing_ws2\<close>. Over any sequence of ticks and commands other than reset the
  list only grows at its end, so its length never decreases.
\<close>

theorem finished_ids_grow_without_duplicates:
  assumes "run evs (reset g) = Inr s"
  shows "distinct (finished_ids s) \<and>
         (\<forall>g' dt. \<exists>s'. update g' dt s = Inr s' \<and>
            (finished_ids s' = finished_ids s \<or>
             (\<exists>i. finished_ids s' = finished_ids s @ [i] \<and> ws2_current_id s = Some i \<and>
                  (\<exists>p\<in>set (products s). pid p = i \<and> state p = processing_ws2)))) \<and>
         (\<forall>evs' s'. list_all (\<lambda>ev. \<not> is_reset ev) evs' \<and> run evs' s = Inr s' \<longrightarrow>
            prefix (finished_ids s) (finished_ids s') \<and>
            length (finished_ids s) \<le> length (finished_ids s'))"
proof -
  from reachable_invariant [OF assms] have inv: "invariant s" .
  then have d: "distinct (finished_ids s)" by (simp add: invariant_def inv_finished_def)
  have step: "\<exists>s'. update g' dt s = Inr s' \<and>
            (finished_ids s' = finished_ids s \<or>
             (\<exists>i. finished_ids s' = finished_ids s @ [i] \<and> ws2_current_id s = Some i \<and>
                  (\<exists>p\<in>set (products s). pid p = i \<and> state p = processing_ws2)))" for g' dt
  proof -
    from update_invariant [OF inv, of g' dt] obtain s' where s': "update g' dt s = Inr s'" by blast
    from update_finished_grows [OF s'] show ?thesis
    proof
      assume "finished_ids s' = finished_ids s"
      with s' show ?thesis by blast
    next
      assume "\<exists>i. ws2_current_id s = Some i \<and> finished_ids s' = finished_ids s @ [i]"
      then obtain i where i: "ws2_current_id s = Some i" "finished_ids s' = finished_ids s @ [i]"
        by blast
      from inv i(1) have "\<exists>p\<in>set (products s). pid p = i \<and> state p = processing_ws2"
        by (auto simp add: invariant_def inv_ws2_def)
      with s' i show ?thesis by blast
    qed
  qed
  have pre: "prefix (finished_ids s) (finished_ids s') \<and>
      length (finished_ids s) \<le> length (finished_ids s')"
    if "list_all (\<lambda>ev. \<not> is_reset ev) evs'" "run evs' s = Inr s'" for evs' s'
    using run_finished_prefix [OF that] by (simp add: prefix_length_le)
  from d step pre show ?thesis by blast
qed

theorem finished_ids_grow_without_duplicates_witness:
  "run demo_prefix (reset demo_rng) = Inr demo_started \<and>
   ws2_current_id demo_started = Some 1 \<and>
   map state (products demo_started) = [processing_ws2, producing_ws1] \<and>
   finished_ids demo_started = [] \<and>
   update demo_rng 100 demo_started = Inr demo_final \<and>
   finished_ids demo_final = [1]"
proof -
  from finished_ids_grow_without_duplicates [OF demo_prefix_run]
  have "distinct (finished_ids demo_started)" by blast
  moreover have "ws2_current_id demo_started = Some 1 \<and>
      map state (products demo_started) = [processing_ws2, producing_ws1] \<and>
      finished_ids demo_started = [] \<and> finished_ids demo_final = [1]"
    by (simp add: demo_started_def demo_processing_def demo_final_def demo_finished_def)
  ultimately show ?thesis using demo_prefix_run demo_last_tick by simp
qed

text \<open>
  The claim as stated fails: the length of the finished list is not strictly
  increasing. In the running state after \<open>reset\<close> and the start command, a tick of
  one minute leaves the list empty.
\<close>

theorem finished_ids_strictly_increasing_counterexample:
  "running (start (reset demo_rng)) \<and>
   length (finished_ids (start (reset demo_rng))) = 0 \<and>
   map_sum id (\<lambda>s. length (finished_ids s)) (update demo_rng 1 (start (reset demo_rng))) = Inr 0"
  by (simp add: eval_defs)

text \<open>
  C6. \<open>_schedule_next_ws1\<close> appends exactly one product. Its pid is the counter
  before the call, and the counter grows by one; its production start is the current
  time and its state \<open>producing_ws1\<close>; its durations lie in the ranges production
  65..85, setup 5..15, transfer 5..11, processing 30..45; the assignment log gets
  the tuple (pid, production, transfer, processing); WS1 is busy until the current
  time plus production plus setup.
\<close>

theorem schedule_next_ws1_spec:
  "\<exists>p. products (schedule_next_ws1 g s) = products s @ [p] \<and>
       pid p = next_pid s \<and>
       next_pid (schedule_next_ws1 g s) = next_pid s + 1 \<and>
       t_prod_start p = Some (now s) \<and>
       state p = producing_ws1 \<and>
       65 \<le> prod_time p \<and> prod_time p \<le> 85 \<and>
       5 \<le> setup_time p \<and> setup_time p \<le> 15 \<and>
       5 \<le> transfer_time p \<and> transfer_time p \<le> 11 \<and>
       30 \<le> proc_time p \<and> proc_time p \<le> 45 \<and>
       assigned_list (schedule_next_ws1 g s) =
         assigned_list s @ [(pid p, prod_time p, transfer_time p, proc_time p)] \<and>
       ws1_busy_until (schedule_next_ws1 g s) =
         now s + of_int (prod_time p) + of_int (setup_time p)"
proof -
  have r: "lo \<le> hi \<Longrightarrow> lo \<le> rand lo hi r \<and> rand lo hi r \<le> hi" for lo hi r :: int
  proof -
    assume "lo \<le> hi"
    then have pos: "0 < hi - lo + 1" by simp
    from pos have "0 \<le> r mod (hi - lo + 1)" by (rule pos_mod_sign)
    moreover from pos have "r mod (hi - lo + 1) < hi - lo + 1" by (rule pos_mod_bound)
    ultimately show ?thesis unfolding rand_def by linarith
  qed
  have "65 \<le> rand PROD_MIN PROD_MAX (rng_prod g) \<and> rand PROD_MIN PROD_MAX (rng_prod g) \<le> 85"
    using r [of PROD_MIN PROD_MAX "rng_prod g"] by (simp add: config_defs)
  moreover
  have "5 \<le> rand SETUP_MIN SETUP_MAX (rng_setup g) \<and> rand SETUP_MIN SETUP_MAX (rng_setup g) \<le> 15"
    using r [of SETUP_MIN SETUP_MAX "rng_setup g"] by (simp add: config_defs)
  moreover
  have "5 \<le> rand TRANSFER_MIN TRANSFER_MAX (rng_transfer g) \<and>
        rand TRANSFER_MIN TRANSFER_MAX (rng_transfer g) \<le> 11"
    using r [of TRANSFER_MIN TRANSFER_MAX "rng_transfer g"] by (simp add: config_defs)
  moreover
  have "30 \<le> rand PROC_MIN PROC_MAX (rng_proc g) \<and> rand PROC_MIN PROC_MAX (rng_proc g) \<le> 45"
    using r [of PROC_MIN PROC_MAX "rng_proc g"] by (simp add: config_defs)
  ultimately show ?thesis
    by (simp add: schedule_next_ws1_def Let_def Product_init_def)
qed

theorem schedule_next_ws1_spec_witness:
  "products (schedule_next_ws1 demo_rng (reset demo_rng)) =
     products (reset demo_rng) @
       [\<lparr>pid = 2, prod_time = 65, setup_time = 5, transfer_time = 5, proc_time = 30,
         t_prod_start = Some 0, t_prod_done = None, t_transfer_done = None,
         t_proc_start = None, t_proc_done = None, state = producing_ws1,
         pos_x = Some 730, pos_y = Some 250, target_x = None, target_y = None\<rparr>] \<and>
   next_pid (schedule_next_ws1 demo_rng (reset demo_rng)) = 3 \<and>
   assigned_list (schedule_next_ws1 demo_rng (reset demo_rng)) = [(1, 65, 5, 30), (2, 65, 5, 30)] \<and>
   ws1_busy_until (schedule_next_ws1 demo_rng (reset demo_rng)) = 70"
  using schedule_next_ws1_spec [of demo_rng "reset demo_rng"]
  by (simp add: eval_defs)

text \<open>
  C7 (as amended). After \<open>reset\<close> a single tick is a no-op, because \<open>reset\<close> leaves
  the simulation paused: no product is finished and the assignment log has length
  one. With the start command between \<open>reset\<close> and the tick of 10000 minutes
  at speed 1, the first product is in state \<open>transferring\<close> after the tick:
  still no product is finished, and the assignment log has length one.
\<close>

theorem reset_tick_finishes_nothing:
  "update g' dt (reset g) = Inr (reset g) \<and>
   count_state finished (reset g) = 0 \<and>
   length (assigned_list (reset g)) = 1 \<and>
   (\<exists>s'. update g' 10000 (start (reset g)) = Inr s' \<and>
         map state (products s') = [transferring] \<and>
         count_state finished s' = 0 \<and>
         finished_ids s' = [] \<and>
         length (assigned_list s') = 1)"
proof -
  have "0 \<le> rng_prod g mod 21" "rng_prod g mod 21 < 21" by simp_all
  then have le: "real_of_int (rng_prod g mod 21) \<le> 9935" by linarith
  have a: "update g' dt (reset g) = Inr (reset g)" by (simp add: update_def)
  have b: "count_state finished (reset g) = 0 \<and> length (assigned_list (reset g)) = 1"
    by (simp add: eval_defs)
  have c: "\<exists>s'. update g' 10000 (start (reset g)) = Inr s' \<and>
         map state (products s') = [transferring] \<and>
         count_state finished s' = 0 \<and>
         finished_ids s' = [] \<and>
         length (assigned_list s') = 1"
    using le by (simp add: eval_defs)
  from a b c show ?thesis by simp
qed

theorem reset_tick_finishes_nothing_witness:
  "map_sum id (\<lambda>s. (now s, map state (products s), finished_ids s, assigned_list s))
     (update demo_rng 10000 (start (reset demo_rng))) =
   Inr (10000, [transferring], [], [(1, 65, 5, 30)])"
  using reset_tick_finishes_nothing [of demo_rng 10000 demo_rng]
  by (simp add: eval_defs)

text \<open>
  The claim as stated fails: the drawn durations of the first product sum to 105,
  less than 10000, and after \<open>reset\<close> and one tick of 10000 minutes no product is
  finished, with or without the start command.
\<close>

theorem reset_tick_one_finished_counterexample:
  "map (\<lambda>p. prod_time p + setup_time p + transfer_time p + proc_time p)
     (products (reset demo_rng)) = [105] \<and>
   map_sum id (count_state finished) (update demo_rng 10000 (reset demo_rng)) = Inr 0 \<and>
   map_sum id (count_state finished) (update demo_rng 10000 (start (reset demo_rng))) = Inr 0"
  by (simp add: eval_defs)

text \<open>
  C8 (as amended). The simulation validates no speed: the assignment
  \<open>sim.speed = v\<close> stores whatever it is given. The driver only assigns 1, 2, 5,
  10 or 20, and \<open>reset\<close> assigns 1, so in every state reached from \<open>reset\<close> by
  ticks and the driver's commands the stored speed is one of 1, 2, 5, 10, 20, and
  positive.
\<close>

theorem speed_stored_unchecked:
  "speed (set_speed v s) = v \<and>
   speed (reset g) = 1 \<and>
   (list_all driver_event evs \<and> run evs (reset g) = Inr s' \<longrightarrow>
      speed s' \<in> {1, 2, 5, 10, 20} \<and> 0 < speed s')"
proof -
  have "speed s' \<in> {1, 2, 5, 10, 20} \<and> 0 < speed s'"
    if "list_all driver_event evs" "run evs (reset g) = Inr s'"
  proof -
    have "speed (reset g) \<in> {1, 2, 5, 10, 20}" by simp
    from driver_speed_run [OF this that] show ?thesis by auto
  qed
  then show ?thesis by (auto simp add: set_speed_def)
qed

theorem speed_stored_unchecked_witness:
  "list_all driver_event [SetSpeed 20, Start, Tick demo_rng 3] \<and>
   map_sum id (\<lambda>s. (speed s, now s)) (run [SetSpeed 20, Start, Tick demo_rng 3] (reset demo_rng)) =
     Inr (20, 60)"
proof -
  have d: "list_all driver_event [SetSpeed 20, Start, Tick demo_rng 3]" by simp
  have r: "map_sum id (\<lambda>s. (speed s, now s))
      (run [SetSpeed 20, Start, Tick demo_rng 3] (reset demo_rng)) = Inr (20, 60)"
    by (simp add: eval_defs)
  then obtain s' where s': "run [SetSpeed 20, Start, Tick demo_rng 3] (reset demo_rng) = Inr s'"
    by (cases "run [SetSpeed 20, Start, Tick demo_rng 3] (reset demo_rng)") simp_all
  from speed_stored_unchecked [of 20 s' demo_rng "[SetSpeed 20, Start, Tick demo_rng 3]" s'] d s'
  have "0 < speed s'" by blast
  with d r show ?thesis by blast
qed

text \<open>
  The claim as stated fails: assigning the speed 0 stores 0, which is not positive,
  and the next tick of five seconds leaves the simulated time at zero.
\<close>

theorem set_speed_zero_counterexample:
  "speed (set_speed 0 (reset demo_rng)) = 0 \<and>
   map_sum id now (update demo_rng 5 (start (set_speed 0 (reset demo_rng)))) = Inr 0"
  by (simp add: eval_defs)

text \<open>
  C9. Every run from \<open>reset\<close> succeeds, and in the state it reaches every pid in
  the WS2 queue and the current WS2 pid, when there is one, is the pid of a product
  of the collection. So the lookups of \<open>_try_start_ws2\<close> and of the completion
  check find their product: a further tick returns a state, never StopIteration
  (nor any other error).
\<close>

theorem lookups_never_fail:
  "\<exists>s. run evs (reset g) = Inr s \<and>
       set (queue_ws2 s) \<subseteq> pid ` set (products s) \<and>
       (\<forall>i. ws2_current_id s = Some i \<longrightarrow> i \<in> pid ` set (products s)) \<and>
       (\<forall>g' dt. \<exists>s'. update g' dt s = Inr s') \<and>
       (\<exists>s'. tick_completion s = Inr s') \<and>
       (\<exists>s'. try_start_ws2 s = Inr s')"
proof -
  from run_invariant [OF reset_invariant, of evs g] obtain s where
    s: "run evs (reset g) = Inr s" and inv: "invariant s" by blast
  from inv have q: "set (queue_ws2 s) \<subseteq> pid ` set (products s)"
    by (auto simp add: invariant_def inv_queue_def)
  from inv have c: "\<forall>i. ws2_current_id s = Some i \<longrightarrow> i \<in> pid ` set (products s)"
    by (auto simp add: invariant_def inv_ws2_def)
  from update_invariant [OF inv] have u: "\<forall>g' dt. \<exists>s'. update g' dt s = Inr s'" by blast
  from tick_completion_invariant [OF inv] have tc: "\<exists>s'. tick_completion s = Inr s'" by blast
  from try_start_ws2_invariant [OF inv] have ts: "\<exists>s'. try_start_ws2 s = Inr s'" by blast
  from s q c u tc ts show ?thesis by blast
qed

theorem lookups_never_fail_witness:
  "run demo_prefix (reset demo_rng) = Inr demo_started \<and>
   queue_ws2 demo_started = [] \<and>
   ws2_current_id demo_started = Some 1 \<and>
   map pid (products demo_started) = [1, 2] \<and>
   update demo_rng 100 demo_started = Inr demo_final"
proof -
  from lookups_never_fail [of demo_prefix demo_rng]
  have "\<exists>s'. update demo_rng 100 demo_started = Inr s'"
    by (simp add: demo_prefix_run)
  moreover have "queue_ws2 demo_started = [] \<and> ws2_current_id demo_started = Some 1 \<and>
      map pid (products demo_started) = [1, 2]"
    by (simp add: demo_started_def demo_processing_def)
  ultimately show ?thesis using demo_prefix_run demo_last_tick by simp
qed

text \<open>
  C10. \<open>reset\<close> (and so the constructor) leaves \<open>running\<close> false and \<open>paused\<close>
  true. Every tick after it returns the state unchanged, and so does any sequence
  of ticks; a sequence of ticks, pause commands and speed assignments changes
  nothing but the speed. Time stays at zero and the scheduled product makes no
  progress until the start command or the resume toggle.
\<close>

theorem reset_leaves_paused:
  "Simulation_init g = reset g \<and>
   \<not> running (reset g) \<and> paused (reset g) \<and>
   update g' dt (reset g) = Inr (reset g) \<and>
   (list_all is_tick evs \<longrightarrow> run evs (reset g) = Inr (reset g)) \<and>
   (list_all passive_event evs \<longrightarrow> (\<exists>v. run evs (reset g) = Inr (set_speed v (reset g))))"
proof -
  have "update g' dt (reset g) = Inr (reset g)" by (simp add: update_def)
  moreover have "list_all is_tick evs \<longrightarrow> run evs (reset g) = Inr (reset g)"
    using ticks_run [of "reset g" evs] by simp
  moreover have "list_all passive_event evs \<longrightarrow> (\<exists>v. run evs (reset g) = Inr (set_speed v (reset g)))"
    using passive_run [of "reset g" evs] by simp
  ultimately show ?thesis by (simp add: Simulation_init_def)
qed

theorem reset_leaves_paused_witness:
  "list_all is_tick [Tick demo_rng 10000, Tick demo_rng 1] \<and>
   run [Tick demo_rng 10000, Tick demo_rng 1] (reset demo_rng) = Inr (reset demo_rng) \<and>
   now (reset demo_rng) = 0 \<and>
   map state (products (reset demo_rng)) = [producing_ws1]"
proof -
  have t: "list_all is_tick [Tick demo_rng 10000, Tick demo_rng 1]" by simp
  from reset_leaves_paused [of demo_rng demo_rng 10000 "[Tick demo_rng 10000, Tick demo_rng 1]"] t
  have r: "run [Tick demo_rng 10000, Tick demo_rng 1] (reset demo_rng) = Inr (reset demo_rng)"
    by blast
  have "now (reset demo_rng) = 0 \<and> map state (products (reset demo_rng)) = [producing_ws1]"
    by (simp add: eval_defs)
  with t r show ?thesis by blast
qed

end
